theory Spec2Isabelle
  imports Main
begin

text \<open>
  A model of the text-to-hierarchy pipeline of MapMyNotes: \<open>modules/pipeline.py\<close>
  (\<open>_short_id\<close>, \<open>_safe_json_loads\<close>, \<open>_call_gemini\<close>, \<open>build_graph_from_hierarchy\<close>,
  \<open>process_text_to_mindmap\<close>) and \<open>generate_quiz_and_flashcards\<close> of
  \<open>modules/copilot.py\<close>. Python values are dynamically typed, so the model carries the
  type of every value and every exception the source can raise is a result. The external
  model, \<open>json\<close>, \<open>uuid\<close> and the room the interpreter's recursion limit leaves to the
  builder are parameters.
\<close>

section \<open>Python values\<close>

text \<open>
  A Python \<open>str\<close> is modelled as a \<open>string\<close>: a list of characters, one per code point,
  for the code points below 256. \<open>length\<close> is Python's \<open>len\<close>, \<open>take n\<close> is the
  slice \<open>s[:n]\<close>.

  A value that \<open>json\<close> reads or writes is a \<open>json\<close>: \<open>JNull\<close> is \<open>None\<close>, \<open>JObj\<close> is a
  \<open>dict\<close> given by its items in insertion order (the keys of a dict are distinct),
  \<open>Finite m e\<close> is the float \<open>m * 2 ^ e\<close>, and \<open>JTuple\<close> is a \<open>tuple\<close>, which
  \<open>json.dumps\<close> accepts and \<open>json.loads\<close> never returns.
\<close>

datatype pyfloat = Finite int int | Infinity bool | NaN

datatype json =
    JNull
  | JBool bool
  | JInt int
  | JFloat pyfloat
  | JStr string
  | JList "json list"
  | JTuple "json list"
  | JObj "(string \<times> json) list"

text \<open>The exceptions the modelled code can raise.\<close>

datatype exn =
  IndexError | AttributeError | TypeError | ValueError | RecursionError | ModelError string

text \<open>Truth value of a Python object, as \<open>if x\<close>, \<open>not x\<close> and \<open>x or y\<close> read it.\<close>

fun float_is_zero :: "pyfloat \<Rightarrow> bool" where
  "float_is_zero (Finite m e) = (m = 0)"
| "float_is_zero (Infinity b) = False"
| "float_is_zero NaN = False"

fun truthy :: "json \<Rightarrow> bool" where
  "truthy JNull = False"
| "truthy (JBool b) = b"
| "truthy (JInt i) = (i \<noteq> 0)"
| "truthy (JFloat f) = (\<not> float_is_zero f)"
| "truthy (JStr s) = (s \<noteq> [])"
| "truthy (JList xs) = (xs \<noteq> [])"
| "truthy (JTuple xs) = (xs \<noteq> [])"
| "truthy (JObj kvs) = (kvs \<noteq> [])"

text \<open>\<open>isinstance(x, list)\<close> and \<open>isinstance(x, dict)\<close>.\<close>

fun is_list :: "json \<Rightarrow> bool" where
  "is_list (JList xs) = True"
| "is_list v = False"

fun is_dict :: "json \<Rightarrow> bool" where
  "is_dict (JObj kvs) = True"
| "is_dict v = False"

text \<open>\<open>x or y\<close>.\<close>

definition py_or :: "json \<Rightarrow> json \<Rightarrow> json" where
  "py_or x y = (if truthy x then x else y)"

text \<open>\<open>x.get(k, d)\<close>: only a dict has \<open>get\<close>.\<close>

fun py_get :: "json \<Rightarrow> string \<Rightarrow> json \<Rightarrow> exn + json" where
  "py_get (JObj kvs) k d = Inr (case map_of kvs k of Some v \<Rightarrow> v | None \<Rightarrow> d)"
| "py_get v k d = Inl AttributeError"

text \<open>
  The slice \<open>x[:n]\<close>: a str, a list and a tuple can be sliced, nothing else can. (On a dict the
  exception is a \<open>TypeError\<close> up to Python 3.11 and a \<open>KeyError\<close> after; no statement
  below depends on which.)
\<close>

fun py_take :: "nat \<Rightarrow> json \<Rightarrow> exn + json" where
  "py_take n (JStr s) = Inr (JStr (take n s))"
| "py_take n (JList xs) = Inr (JList (take n xs))"
| "py_take n (JTuple xs) = Inr (JTuple (take n xs))"
| "py_take n v = Inl TypeError"

text \<open>\<open>len(x)\<close> of a str, a list or a tuple.\<close>

fun py_len :: "json \<Rightarrow> nat option" where
  "py_len (JStr s) = Some (length s)"
| "py_len (JList xs) = Some (length xs)"
| "py_len (JTuple xs) = Some (length xs)"
| "py_len v = None"

section \<open>String methods\<close>

text \<open>\<open>str.isspace\<close> on one character below 256.\<close>

definition is_space :: "char \<Rightarrow> bool" where
  "is_space c = ((of_char c :: nat) \<in> {9, 10, 11, 12, 13, 28, 29, 30, 31, 32, 133, 160})"

text \<open>The line boundaries of \<open>str.splitlines\<close> below 256.\<close>

definition is_linebreak :: "char \<Rightarrow> bool" where
  "is_linebreak c = ((of_char c :: nat) \<in> {10, 11, 12, 13, 28, 29, 30, 133})"

text \<open>\<open>s.strip()\<close> and \<open>s.strip(chars)\<close>.\<close>

definition strip_with :: "(char \<Rightarrow> bool) \<Rightarrow> string \<Rightarrow> string" where
  "strip_with p s = rev (dropWhile p (rev (dropWhile p s)))"

definition strip :: "string \<Rightarrow> string" where
  "strip s = strip_with is_space s"

definition strip_chars :: "string \<Rightarrow> string \<Rightarrow> string" where
  "strip_chars chars s = strip_with (\<lambda>c. c \<in> set chars) s"

text \<open>\<open>s.lower()\<close>, character by character.\<close>

definition lower_char :: "char \<Rightarrow> char" where
  "lower_char c =
     (let n = (of_char c :: nat)
      in if (65 \<le> n \<and> n \<le> 90) \<or> (192 \<le> n \<and> n \<le> 222 \<and> n \<noteq> 215)
         then char_of (n + 32) else c)"

definition lower :: "string \<Rightarrow> string" where
  "lower s = map lower_char s"

text \<open>\<open>s.splitlines()\<close>: \<open>\r\n\<close> is one boundary, and no empty last line is added.\<close>

fun after_break :: "char \<Rightarrow> string \<Rightarrow> string" where
  "after_break c [] = []"
| "after_break c (d # ds) =
     (if c = CHR 0x0D \<and> d = CHR 0x0A then ds else d # ds)"

function splitlines :: "string \<Rightarrow> string list" where
  "splitlines [] = []"
| "splitlines (c # cs) =
     (if is_linebreak c then [] # splitlines (after_break c cs)
      else (case splitlines cs of [] \<Rightarrow> [[c]] | l # ls \<Rightarrow> (c # l) # ls))"
  by pat_completeness auto

lemma length_after_break: "length (after_break c cs) \<le> length cs"
  by (cases cs) auto

termination splitlines
  by (relation "measure length") (auto simp: length_after_break less_Suc_eq_le)

text \<open>\<open>s.split()\<close>: the maximal runs of characters that are not white space.\<close>

fun split_from :: "string \<Rightarrow> string \<Rightarrow> string list" where
  "split_from cur [] = (if cur = [] then [] else [rev cur])"
| "split_from cur (c # cs) =
     (if is_space c then (if cur = [] then split_from [] cs else rev cur # split_from [] cs)
      else split_from (c # cur) cs)"

definition split :: "string \<Rightarrow> string list" where
  "split s = split_from [] s"

text \<open>\<open>sep.join(xs)\<close> on a list of str.\<close>

fun join :: "string \<Rightarrow> string list \<Rightarrow> string" where
  "join sep [] = []"
| "join sep [x] = x"
| "join sep (x # y # ys) = x @ sep @ join sep (y # ys)"

text \<open>\<open>str(n)\<close> of a natural number.\<close>

definition digit_char :: "nat \<Rightarrow> char" where
  "digit_char d = char_of (48 + d)"

function show_nat :: "nat \<Rightarrow> string" where
  "show_nat n = (if n < 10 then [digit_char n] else show_nat (n div 10) @ [digit_char (n mod 10)])"
  by pat_completeness auto

termination show_nat
  by (relation "measure id") auto

section \<open>Structured-output repair\<close>

text \<open>
  \<open>re.search(r'(\{.*\}|\[.*\])', s, re.S)\<close> and \<open>group(1)\<close>. The search takes the leftmost
  position where an alternative matches. At a position holding an opening brace the first
  alternative matches when a closing brace follows somewhere, and the greedy \<open>.*\<close> (with
  \<open>re.S\<close> the dot matches a newline too) runs to the last one; likewise for brackets.
  \<open>upto_last c s\<close> is the prefix of \<open>s\<close> that ends with the last \<open>c\<close> of \<open>s\<close>.
\<close>

fun upto_last :: "char \<Rightarrow> string \<Rightarrow> string option" where
  "upto_last c [] = None"
| "upto_last c (x # xs) =
     (case upto_last c xs of
        Some r \<Rightarrow> Some (x # r)
      | None \<Rightarrow> if x = c then Some [x] else None)"

fun regex_search :: "string \<Rightarrow> string option" where
  "regex_search [] = None"
| "regex_search (x # xs) =
     (if x = CHR ''{'' then
        (case upto_last CHR ''}'' xs of Some r \<Rightarrow> Some (x # r) | None \<Rightarrow> regex_search xs)
      else if x = CHR ''['' then
        (case upto_last CHR '']'' xs of Some r \<Rightarrow> Some (x # r) | None \<Rightarrow> regex_search xs)
      else regex_search xs)"

text \<open>
  \<open>_safe_json_loads\<close>. The strict parser \<open>json.loads\<close> is a parameter: \<open>loads s\<close> is
  \<open>Some v\<close> when it returns \<open>v\<close> and \<open>None\<close> when it raises. The function returns \<open>None\<close>
  (here \<open>JNull\<close>) when both attempts fail.
\<close>

definition safe_json_loads :: "(string \<Rightarrow> json option) \<Rightarrow> string \<Rightarrow> json" where
  "safe_json_loads loads s =
     (case loads s of
        Some v \<Rightarrow> v
      | None \<Rightarrow>
          (case regex_search s of
             Some m \<Rightarrow> (case loads m of Some v \<Rightarrow> v | None \<Rightarrow> JNull)
           | None \<Rightarrow> JNull))"

declare show_nat.simps [simp del]

section \<open>Errors as values\<close>

text \<open>
  A computation that may raise returns \<open>Inl e\<close> for the exception \<open>e\<close> and \<open>Inr x\<close> for
  the value \<open>x\<close>; \<open>and_then\<close> runs the next statement unless the first one raised.
\<close>

definition and_then :: "exn + 'a \<Rightarrow> ('a \<Rightarrow> exn + 'b) \<Rightarrow> exn + 'b" where
  "and_then m f = (case m of Inl e \<Rightarrow> Inl e | Inr x \<Rightarrow> f x)"

section \<open>Hierarchy builder\<close>

text \<open>
  A node and an edge are dicts with fixed keys. The keys \<open>key_points\<close> and
  \<open>ai_explanation\<close> are absent from some nodes, so these fields are options.
\<close>

record node =
  node_id :: string
  label :: json
  level :: nat
  summary :: json
  key_points :: "json option"
  ai_explanation :: "json option"

record edge =
  source :: string
  target :: string

text \<open>
  \<open>_short_id\<close>. The random source is a parameter: \<open>uuid4_hex k\<close> is \<open>uuid.uuid4().hex\<close> of
  the \<open>k\<close>-th call, 32 hexadecimal digits.
\<close>

definition short_id :: "(nat \<Rightarrow> string) \<Rightarrow> nat \<Rightarrow> string \<Rightarrow> string" where
  "short_id uuid4_hex k prefix = prefix @ ''_'' @ take 8 (uuid4_hex k)"

text \<open>
  \<open>for item in x\<close>: a list or a tuple gives its elements, a str its characters, a dict
  its keys.
\<close>

fun py_iter :: "json \<Rightarrow> exn + json list" where
  "py_iter (JList xs) = Inr xs"
| "py_iter (JTuple xs) = Inr xs"
| "py_iter (JStr s) = Inr (map (\<lambda>c. JStr [c]) s)"
| "py_iter (JObj kvs) = Inr (map (\<lambda>kv. JStr (fst kv)) kvs)"
| "py_iter v = Inl TypeError"

text \<open>
  The four reads of one loop iteration of \<open>build_graph_from_hierarchy\<close>:
  \<open>label\<close>, \<open>summary\<close>, \<open>key_points\<close> and \<open>subtopics\<close>.
\<close>

definition item_fields :: "json \<Rightarrow> exn + (json \<times> json \<times> json \<times> json)" where
  "item_fields item =
     and_then (py_get item ''title'' (JStr [])) (\<lambda>t.
     and_then (py_take 140 t) (\<lambda>lbl.
     and_then (py_get item ''summary'' (JStr [])) (\<lambda>s.
     and_then (py_take 400 s) (\<lambda>smry.
     and_then (py_get item ''key_points'' (JList [])) (\<lambda>kp.
     and_then (py_take 6 kp) (\<lambda>kps.
     and_then (py_get item ''subtopics'' (JList [])) (\<lambda>subtopics.
     Inr (lbl, smry, kps, subtopics))))))))"

text \<open>The elements of a list value.\<close>

fun elements :: "json \<Rightarrow> json list" where
  "elements (JList xs) = xs"
| "elements v = []"

text \<open>\<open>if parent_id\<close>: the parent is neither \<open>None\<close> nor the empty string.\<close>

fun has_parent :: "string option \<Rightarrow> bool" where
  "has_parent None = False"
| "has_parent (Some p) = (p \<noteq> [])"

fun new_edges :: "string option \<Rightarrow> string \<Rightarrow> edge list" where
  "new_edges None nid = []"
| "new_edges (Some p) nid = (if p \<noteq> [] then [\<lparr>source = p, target = nid\<rparr>] else [])"

lemma size_map_of: "map_of kvs k = Some v \<Longrightarrow> size v < Suc (size_list (size_prod (\<lambda>x. 0) size) kvs)"
  by (induction kvs) (auto split: if_splits)

lemma size_py_get: "py_get item k (JList []) = Inr v \<Longrightarrow> size v \<le> size item"
  by (cases item) (auto split: option.splits dest: size_map_of)

lemma size_item_fields: "item_fields item = Inr (lbl, smry, kps, sub) \<Longrightarrow> size sub \<le> size item"
  by (auto simp: item_fields_def and_then_def split: sum.splits dest: size_py_get)

lemma size_elements: "is_list v \<Longrightarrow> size_list size (elements v) < size v"
  by (cases v) auto

text \<open>
  The loop of \<open>build_graph_from_hierarchy\<close> over the items of one list, with the lists
  \<open>nodes\<close> and \<open>edges\<close> it appends to and the number \<open>k\<close> of UUIDs drawn so far. The
  recursive call on \<open>subtopics\<close> appends to the same lists. An exception is returned
  with the number of UUIDs drawn when it was raised.

  The function calls itself once per nesting level and the interpreter bounds the depth
  of the call stack: \<open>max_level\<close> is the deepest level at which the calls of line 143
  (\<open>_short_id\<close>, \<open>uuid.uuid4\<close> and what that calls) still fit under
  \<open>sys.getrecursionlimit()\<close>; it depends on that limit and on the depth of the stack at
  the first call. At a deeper level the first iteration raises \<open>RecursionError\<close> at line
  143, before \<open>uuid4\<close> returns. Every iteration draws its identifier first, then reads
  the fields of the item.
\<close>

function build_items ::
  "(nat \<Rightarrow> string) \<Rightarrow> nat \<Rightarrow> json list \<Rightarrow> string option \<Rightarrow> nat \<Rightarrow> nat \<Rightarrow> node list \<Rightarrow> edge list
    \<Rightarrow> (exn \<times> nat) + (nat \<times> node list \<times> edge list)" where
  "build_items U max_level [] parent lvl k ns es = Inr (k, ns, es)"
| "build_items U max_level (item # rest) parent lvl k ns es =
     (if max_level < lvl then Inl (RecursionError, k)
      else
        (let nid = short_id U k (''n'' @ show_nat lvl)
         in case item_fields item of
              Inl e \<Rightarrow> Inl (e, Suc k)
            | Inr (lbl, smry, kps, subtopics) \<Rightarrow>
                (let ns1 = ns @ [\<lparr>node_id = nid, label = lbl, level = lvl, summary = smry,
                                    key_points = Some kps, ai_explanation = None\<rparr>];
                     es1 = es @ new_edges parent nid
                 in if is_list subtopics \<and> truthy subtopics
                    then (case build_items U max_level (elements subtopics) (Some nid) (Suc lvl)
                                 (Suc k) ns1 es1 of
                            Inl e \<Rightarrow> Inl e
                          | Inr (k2, ns2, es2) \<Rightarrow> build_items U max_level rest parent lvl k2 ns2 es2)
                    else build_items U max_level rest parent lvl (Suc k) ns1 es1)))"
  by pat_completeness auto

termination build_items
proof (relation "measure (\<lambda>(U, max_level, items, parent, lvl, k, ns, es). size_list size items)",
    goal_cases)
  case 1
  show ?case by simp
next
  case (2 U max_level item rest parent lvl k ns es nid x lbl y smry z kps subtopics)
  have "size_list size (elements subtopics) < size subtopics"
    using 2 by (simp add: size_elements)
  moreover have "size subtopics \<le> size item"
    using 2 by (auto dest: size_item_fields)
  ultimately show ?case by simp
next
  case 3
  then show ?case by simp
next
  case 4
  then show ?case by simp
qed

text \<open>
  \<open>build_graph_from_hierarchy(hierarchy)\<close> with the default arguments: no parent, level 0
  and fresh lists. \<open>k\<close> is the number of UUIDs drawn before the call.
\<close>

definition build_graph_from_hierarchy ::
  "(nat \<Rightarrow> string) \<Rightarrow> nat \<Rightarrow> json \<Rightarrow> nat \<Rightarrow> (exn \<times> nat) + (nat \<times> node list \<times> edge list)" where
  "build_graph_from_hierarchy U max_level hierarchy k =
     (case py_iter hierarchy of
        Inl e \<Rightarrow> Inl (e, k)
      | Inr items \<Rightarrow> build_items U max_level items None 0 k [] [])"

section \<open>Model gateway\<close>

text \<open>
  The external model is a parameter. A prompt is the template of the source with the
  value it is filled with; the model may answer each call differently, so
  \<open>generate_content E n p\<close> is what \<open>generate_content\<close> does on the prompt \<open>p\<close> when
  \<open>n\<close> calls were made before: it raises (with the message \<open>str(e)\<close>), or it returns a
  response with its \<open>text\<close> attribute (\<open>None\<close> when there is none) and its \<open>str(resp)\<close>.
  Reading \<open>resp.text\<close> may raise as well, which is the outcome \<open>Raises\<close> too.
  The prompts: \<open>ChunkSummaryPrompt c\<close> asks for a one-sentence summary of the chunk \<open>c\<close>;
  \<open>RootNamePrompt t\<close>, \<open>StructurePrompt t\<close> and \<open>MapSummaryPrompt h\<close> are
  \<open>ROOT_NAME_PROMPT\<close>, \<open>STRUCTURE_PROMPT\<close> and \<open>MAP_SUMMARY_PROMPT\<close> filled with \<open>t\<close>
  and \<open>h\<close>; \<open>RetryPrompt t\<close> is the structure prompt followed by the request to re-output
  strictly valid JSON; \<open>BatchPrompt ts\<close> lists the titles \<open>ts\<close>; \<open>CompanionPrompt s\<close> and
  \<open>FirstCompanionPrompt s\<close> are the prompts of the second and the first definition of
  \<open>generate_quiz_and_flashcards\<close>.
  The library functions \<open>json.loads\<close> (\<open>None\<close> when it raises), \<open>json.dumps\<close> (which
  may raise too) and \<open>uuid.uuid4().hex\<close> are parameters of the same environment, and so
  is \<open>max_level\<close>, the deepest level the recursion limit allows the builder.
\<close>

datatype prompt =
    ChunkSummaryPrompt string
  | RootNamePrompt string
  | StructurePrompt string
  | RetryPrompt string
  | MapSummaryPrompt string
  | BatchPrompt "string list"
  | CompanionPrompt string
  | FirstCompanionPrompt string

datatype outcome = Raises string | Response "string option" string

record env =
  generate_content :: "nat \<Rightarrow> prompt \<Rightarrow> outcome"
  json_loads :: "string \<Rightarrow> json option"
  json_dumps :: "json \<Rightarrow> exn + string"
  uuid4_hex :: "nat \<Rightarrow> string"
  max_level :: nat

text \<open>
  What a run has done so far: the number of \<open>generate_content\<close> calls, the prompts
  \<open>_call_gemini\<close> was called with (in order), and the number of UUIDs drawn.
\<close>

record pstate =
  calls :: nat
  prompts :: "prompt list"
  ids :: nat

text \<open>\<open>getattr(resp, "text", None) or str(resp)\<close>.\<close>

definition text_or_str :: "string option \<Rightarrow> string \<Rightarrow> string" where
  "text_or_str t r = (case t of None \<Rightarrow> r | Some s \<Rightarrow> if s \<noteq> [] then s else r)"

text \<open>
  The loop of \<open>_call_gemini\<close>, with \<open>left = retry - attempt\<close> attempts still allowed after
  this one. The pause between attempts has no effect on the result.
\<close>

fun attempts :: "env \<Rightarrow> prompt \<Rightarrow> nat \<Rightarrow> nat \<Rightarrow> string \<times> nat" where
  "attempts E p 0 n =
     (case generate_content E n p of
        Response t r \<Rightarrow> (strip (text_or_str t r), Suc n)
      | Raises e \<Rightarrow> (''__GEMINI_ERROR__: '' @ e, Suc n))"
| "attempts E p (Suc left) n =
     (case generate_content E n p of
        Response t r \<Rightarrow> (strip (text_or_str t r), Suc n)
      | Raises e \<Rightarrow> attempts E p left (Suc n))"

definition call_gemini :: "env \<Rightarrow> prompt \<Rightarrow> nat \<Rightarrow> pstate \<Rightarrow> string \<times> pstate" where
  "call_gemini E p retry g =
     (case attempts E p retry (calls g) of
        (out, n) \<Rightarrow> (out, g\<lparr>calls := n, prompts := prompts g @ [p]\<rparr>))"

section \<open>Pipeline orchestrator\<close>

record meta =
  n_nodes :: "nat option"
  meta_summary :: "string option"
  quiz :: "json option"
  meta_keywords :: "string list option"
  error :: "string option"
  warning :: "string option"
  summary_error :: "exn option"
  tooltip_error :: "exn option"

text \<open>
  \<open>summary_error\<close> and \<open>tooltip_error\<close> hold the exception \<open>e\<close> whose \<open>str(e)\<close> the
  source stores. \<open>empty_meta\<close> is the dict with no key.
\<close>

definition empty_meta :: meta where
  "empty_meta = \<lparr>n_nodes = None, meta_summary = None, quiz = None, meta_keywords = None,
                  error = None, warning = None, summary_error = None, tooltip_error = None\<rparr>"

record mindmap =
  nodes :: "node list"
  edges :: "edge list"
  meta :: meta

text \<open>\<open>[text[i:i + T] for i in range(0, len(text), T)]\<close> for \<open>T > 0\<close>.\<close>

function chunks :: "nat \<Rightarrow> string \<Rightarrow> string list" where
  "chunks T s = (if T = 0 \<or> s = [] then [] else take T s # chunks T (drop T s))"
  by pat_completeness auto

termination chunks
  by (relation "measure (\<lambda>(T, s). length s)") auto

declare chunks.simps [simp del]

text \<open>\<open>out.splitlines()[0].strip()\<close>.\<close>

definition first_line :: "string \<Rightarrow> exn + string" where
  "first_line out = (case splitlines out of [] \<Rightarrow> Inl IndexError | l # ls \<Rightarrow> Inr (strip l))"

fun summarize_chunks :: "env \<Rightarrow> string list \<Rightarrow> pstate \<Rightarrow> (exn + string list) \<times> pstate" where
  "summarize_chunks E [] g = (Inr [], g)"
| "summarize_chunks E (c # cs) g =
     (case call_gemini E (ChunkSummaryPrompt c) 1 g of
        (out, g1) \<Rightarrow>
          (case first_line out of
             Inl e \<Rightarrow> (Inl e, g1)
           | Inr l \<Rightarrow>
               (case summarize_chunks E cs g1 of
                  (Inl e, g2) \<Rightarrow> (Inl e, g2)
                | (Inr ls, g2) \<Rightarrow> (Inr (l # ls), g2))))"

text \<open>
  The text the prompts are built from: the input, or the joined one-line summaries of its
  chunks when it is longer than the threshold. \<open>range\<close> raises on a step of 0 and is
  empty on a negative step.
\<close>

definition working_text :: "env \<Rightarrow> int \<Rightarrow> string \<Rightarrow> pstate \<Rightarrow> (exn + string) \<times> pstate" where
  "working_text E chunk_threshold_chars txt g =
     (if int (length txt) > chunk_threshold_chars then
        (if chunk_threshold_chars = 0 then (Inl ValueError, g)
         else
           (case summarize_chunks E
                   (if chunk_threshold_chars < 0 then [] else chunks (nat chunk_threshold_chars) txt) g of
              (Inl e, g1) \<Rightarrow> (Inl e, g1)
            | (Inr summaries, g1) \<Rightarrow> (Inr (join ''\<newline>'' summaries), g1)))
      else (Inr txt, g))"

definition root_title_of :: "env \<Rightarrow> string \<Rightarrow> pstate \<Rightarrow> (exn + string) \<times> pstate" where
  "root_title_of E prompt_text g =
     (case call_gemini E (RootNamePrompt prompt_text) 1 g of
        (out, g1) \<Rightarrow> (first_line out, g1))"

text \<open>
  The structuring call, and the retry when its result is not a non-empty list: the test
  \<open>not structure or not isinstance(structure, list)\<close> of the source is the negation of
  \<open>truthy structure \<and> is_list structure\<close>.
\<close>

definition acquire_structure :: "env \<Rightarrow> string \<Rightarrow> pstate \<Rightarrow> json \<times> pstate" where
  "acquire_structure E prompt_text g =
     (case call_gemini E (StructurePrompt prompt_text) 1 g of
        (raw_structure, g1) \<Rightarrow>
          (let structure = safe_json_loads (json_loads E) raw_structure
           in if truthy structure \<and> is_list structure then (structure, g1)
              else (case call_gemini E (RetryPrompt prompt_text) 1 g1 of
                      (raw_retry, g2) \<Rightarrow> (safe_json_loads (json_loads E) raw_retry, g2))))"

text \<open>The single-node result returned when \<open>structure\<close> is falsy after the retry.\<close>

definition parse_failed_result :: "env \<Rightarrow> string \<Rightarrow> string \<Rightarrow> nat \<Rightarrow> mindmap" where
  "parse_failed_result E txt root_title k =
     \<lparr>nodes = [\<lparr>node_id = short_id (uuid4_hex E) k ''root'',
                 label = JStr (if root_title \<noteq> [] then root_title else ''Main Topic''),
                 level = 0, summary = JStr (take 320 txt),
                 key_points = None, ai_explanation = None\<rparr>],
      edges = [],
      meta = empty_meta\<lparr>meta_summary := Some (take 800 txt), warning := Some ''parse_failed''\<rparr>\<rparr>"

subsection \<open>Map summary and quiz\<close>

text \<open>\<open>x + s\<close> for a str \<open>s\<close>, and \<open>sep.join(x)\<close>.\<close>

fun py_add_str :: "json \<Rightarrow> string \<Rightarrow> exn + string" where
  "py_add_str (JStr a) b = Inr (a @ b)"
| "py_add_str v b = Inl TypeError"

fun is_str :: "json \<Rightarrow> bool" where
  "is_str (JStr s) = True"
| "is_str v = False"

fun str_of :: "json \<Rightarrow> string" where
  "str_of (JStr s) = s"
| "str_of v = []"

definition py_join :: "string \<Rightarrow> json \<Rightarrow> exn + string" where
  "py_join sep x =
     (case py_iter x of
        Inl e \<Rightarrow> Inl TypeError
      | Inr items \<Rightarrow> if list_all is_str items then Inr (join sep (map str_of items)) else Inl TypeError)"

text \<open>
  The body of the first \<open>try\<close>: \<open>None\<close> when \<open>parsed_map\<close> is falsy, else the values of
  \<open>meta["summary"]\<close> and \<open>meta["quiz"]\<close>.
\<close>

definition summary_body :: "env \<Rightarrow> json \<Rightarrow> pstate \<Rightarrow> (exn + (string \<times> json) option) \<times> pstate" where
  "summary_body E structure g =
     (case py_take 3 structure of
        Inl e \<Rightarrow> (Inl e, g)
      | Inr first3 \<Rightarrow>
          (case json_dumps E first3 of
             Inl e \<Rightarrow> (Inl e, g)
           | Inr compact \<Rightarrow>
               (case call_gemini E (MapSummaryPrompt compact) 1 g of
                  (raw_map, g1) \<Rightarrow>
                    (let parsed_map = safe_json_loads (json_loads E) raw_map
                     in if truthy parsed_map then
                          (and_then (py_get parsed_map ''thesis'' (JStr [])) (\<lambda>thesis.
                           and_then (py_add_str thesis ''\<newline>\<newline>'') (\<lambda>head.
                           and_then (py_get parsed_map ''bullets'' (JList [])) (\<lambda>bullets.
                           and_then (py_join ''\<newline>'' bullets) (\<lambda>body.
                           and_then (py_get parsed_map ''quiz'' (JList [])) (\<lambda>q.
                           Inr (Some (head @ body, q))))))), g1)
                        else (Inr None, g1)))))"

definition summary_stage :: "env \<Rightarrow> bool \<Rightarrow> json \<Rightarrow> meta \<Rightarrow> pstate \<Rightarrow> meta \<times> pstate" where
  "summary_stage E enable_map_summary structure m g =
     (if enable_map_summary then
        (case summary_body E structure g of
           (Inl e, g1) \<Rightarrow> (m\<lparr>summary_error := Some e\<rparr>, g1)
         | (Inr None, g1) \<Rightarrow> (m, g1)
         | (Inr (Some (s, q)), g1) \<Rightarrow> (m\<lparr>meta_summary := Some s, quiz := Some q\<rparr>, g1))
      else (m, g))"

subsection \<open>Batched explanations\<close>

text \<open>\<open>x.strip()\<close>: only a str has \<open>strip\<close>.\<close>

fun py_strip :: "json \<Rightarrow> exn + string" where
  "py_strip (JStr s) = Inr (strip s)"
| "py_strip v = Inl AttributeError"

text \<open>The list comprehension \<open>titles\<close>.\<close>

fun collect_titles :: "node list \<Rightarrow> exn + string list" where
  "collect_titles [] = Inr []"
| "collect_titles (n # ns) =
     (case py_strip (label n) of
        Inl e \<Rightarrow> Inl e
      | Inr t \<Rightarrow>
          (case collect_titles ns of
             Inl e \<Rightarrow> Inl e
           | Inr ts \<Rightarrow> Inr (if t \<noteq> [] then t # ts else ts)))"

text \<open>The two loops that fill \<open>mapping\<close>, from a list and from a dict.\<close>

fun mapping_of_list :: "json list \<Rightarrow> (string \<rightharpoonup> json) \<Rightarrow> exn + (string \<rightharpoonup> json)" where
  "mapping_of_list [] m = Inr m"
| "mapping_of_list (i # rest) m =
     (case py_get i ''title'' JNull of
        Inl e \<Rightarrow> Inl e
      | Inr t \<Rightarrow>
          (case py_strip (py_or t (JStr [])) of
             Inl e \<Rightarrow> Inl e
           | Inr k \<Rightarrow>
               (case py_get i ''explanation'' JNull of
                  Inl e \<Rightarrow> Inl e
                | Inr x \<Rightarrow> mapping_of_list rest (m(k \<mapsto> py_or x (JStr []))))))"

fun mapping_of_dict :: "(string \<times> json) list \<Rightarrow> (string \<rightharpoonup> json) \<Rightarrow> (string \<rightharpoonup> json)" where
  "mapping_of_dict [] m = m"
| "mapping_of_dict ((k, v) # rest) m = mapping_of_dict rest (m(strip k \<mapsto> v))"

fun build_mapping :: "json \<Rightarrow> exn + (string \<rightharpoonup> json)" where
  "build_mapping (JList xs) = mapping_of_list xs Map.empty"
| "build_mapping (JObj kvs) = Inr (mapping_of_dict kvs Map.empty)"
| "build_mapping v = Inr Map.empty"

text \<open>The loop that sets \<open>ai_explanation\<close> from \<open>mapping\<close>.\<close>

fun assign_explanations :: "(string \<rightharpoonup> json) \<Rightarrow> node list \<Rightarrow> exn + node list" where
  "assign_explanations m [] = Inr []"
| "assign_explanations m (n # ns) =
     (case py_strip (label n) of
        Inl e \<Rightarrow> Inl e
      | Inr lbl \<Rightarrow>
          (case assign_explanations m ns of
             Inl e \<Rightarrow> Inl e
           | Inr ns' \<Rightarrow>
               Inr (n\<lparr>ai_explanation :=
                        Some (case m lbl of Some v \<Rightarrow> v | None \<Rightarrow> JStr ''No explanation available.'')\<rparr>
                    # ns')))"

definition set_explanation :: "string \<Rightarrow> node \<Rightarrow> node" where
  "set_explanation s n = n\<lparr>ai_explanation := Some (JStr s)\<rparr>"

text \<open>The body of the second \<open>try\<close>.\<close>

definition explanation_body :: "env \<Rightarrow> node list \<Rightarrow> pstate \<Rightarrow> (exn + node list) \<times> pstate" where
  "explanation_body E ns g =
     (case collect_titles ns of
        Inl e \<Rightarrow> (Inl e, g)
      | Inr titles \<Rightarrow>
          if titles \<noteq> [] then
            (case call_gemini E (BatchPrompt titles) 1 g of
               (raw_expl, g1) \<Rightarrow>
                 (and_then (build_mapping (safe_json_loads (json_loads E) raw_expl))
                    (\<lambda>mapping. assign_explanations mapping ns), g1))
          else (Inr (map (set_explanation ''No explanation available.'') ns), g))"

text \<open>
  The second \<open>try\<close> with its handler, which sets the explanation of every node (also of
  those the body had reached) and records the error.
\<close>

definition explanation_stage :: "env \<Rightarrow> node list \<Rightarrow> meta \<Rightarrow> pstate \<Rightarrow> node list \<times> meta \<times> pstate" where
  "explanation_stage E ns m g =
     (case explanation_body E ns g of
        (Inl e, g1) \<Rightarrow> (map (set_explanation ''Explanation unavailable.'') ns, m\<lparr>tooltip_error := Some e\<rparr>, g1)
      | (Inr ns', g1) \<Rightarrow> (ns', m, g1))"

subsection \<open>Keywords\<close>

text \<open>
  \<open>Counter(words)\<close> as its items in insertion order: counting a word adds one to its
  entry, or appends a new entry. \<open>most_common(n)\<close> is the first \<open>n\<close> items of the stable
  sort by descending count.
\<close>

fun count_word :: "string \<Rightarrow> (string \<times> nat) list \<Rightarrow> (string \<times> nat) list" where
  "count_word w [] = [(w, 1)]"
| "count_word w ((x, c) # rest) = (if x = w then (x, Suc c) # rest else (x, c) # count_word w rest)"

definition Counter :: "string list \<Rightarrow> (string \<times> nat) list" where
  "Counter ws = fold count_word ws []"

definition most_common :: "nat \<Rightarrow> (string \<times> nat) list \<Rightarrow> (string \<times> nat) list" where
  "most_common n items = take n (sort_key (\<lambda>wc. - int (snd wc)) items)"

text \<open>
  The generator \<open>label + " " + summary\<close> over the nodes; \<open>py_str_add a x\<close> is \<open>a + x\<close>
  for a str \<open>a\<close>.
\<close>

fun py_str_add :: "string \<Rightarrow> json \<Rightarrow> exn + string" where
  "py_str_add a (JStr b) = Inr (a @ b)"
| "py_str_add a v = Inl TypeError"

fun pool_parts :: "node list \<Rightarrow> exn + string list" where
  "pool_parts [] = Inr []"
| "pool_parts (n # ns) =
     (case py_add_str (label n) '' '' of
        Inl e \<Rightarrow> Inl e
      | Inr a \<Rightarrow>
          (case py_str_add a (summary n) of
             Inl e \<Rightarrow> Inl e
           | Inr part \<Rightarrow>
               (case pool_parts ns of Inl e \<Rightarrow> Inl e | Inr parts \<Rightarrow> Inr (part # parts))))"

definition words_of :: "string \<Rightarrow> string list" where
  "words_of text_pool =
     map (\<lambda>w. strip_chars ''.,:;()[]'' (lower w)) (filter (\<lambda>w. length w > 3) (split text_pool))"

definition keywords_body :: "node list \<Rightarrow> exn + string list" where
  "keywords_body ns =
     (case pool_parts ns of
        Inl e \<Rightarrow> Inl e
      | Inr parts \<Rightarrow> Inr (map fst (most_common 12 (Counter (words_of (join '' '' parts))))))"

definition keywords_stage :: "node list \<Rightarrow> meta \<Rightarrow> meta" where
  "keywords_stage ns m =
     m\<lparr>meta_keywords := Some (case keywords_body ns of Inl e \<Rightarrow> [] | Inr ks \<Rightarrow> ks)\<rparr>"

subsection \<open>The pipeline\<close>

text \<open>The three enrichment stages, run on the graph the builder returned.\<close>

definition enrich ::
  "env \<Rightarrow> bool \<Rightarrow> json \<Rightarrow> node list \<Rightarrow> edge list \<Rightarrow> pstate \<Rightarrow> mindmap \<times> pstate" where
  "enrich E enable_map_summary structure ns es g =
     (case summary_stage E enable_map_summary structure (empty_meta\<lparr>n_nodes := Some (length ns)\<rparr>) g of
        (m1, g1) \<Rightarrow>
          (case explanation_stage E ns m1 g1 of
             (ns2, m2, g2) \<Rightarrow> (\<lparr>nodes = ns2, edges = es, meta = keywords_stage ns2 m2\<rparr>, g2)))"

text \<open>
  \<open>process_text_to_mindmap\<close>. The result is \<open>Inl e\<close> when the exception \<open>e\<close> leaves the
  function, together with what the run had done by then. The fallback draws one UUID for
  the identifier of its node.
\<close>

definition process_text_to_mindmap ::
  "env \<Rightarrow> string \<Rightarrow> int \<Rightarrow> bool \<Rightarrow> pstate \<Rightarrow> (exn + mindmap) \<times> pstate" where
  "process_text_to_mindmap E input chunk_threshold_chars enable_map_summary g =
     (let txt = strip input in
      if txt = [] then
        (Inr \<lparr>nodes = [], edges = [],
              meta = empty_meta\<lparr>meta_summary := Some [], error := Some ''no_text''\<rparr>\<rparr>, g)
      else
        (case working_text E chunk_threshold_chars txt g of
           (Inl e, g1) \<Rightarrow> (Inl e, g1)
         | (Inr prompt_text, g1) \<Rightarrow>
             (case root_title_of E prompt_text g1 of
                (Inl e, g2) \<Rightarrow> (Inl e, g2)
              | (Inr root_title, g2) \<Rightarrow>
                  (case acquire_structure E prompt_text g2 of
                     (structure, g3) \<Rightarrow>
                       if truthy structure then
                         (case build_graph_from_hierarchy (uuid4_hex E) (max_level E) structure
                                 (ids g3) of
                            Inl (e, k) \<Rightarrow> (Inl e, g3\<lparr>ids := k\<rparr>)
                          | Inr (k, ns, es) \<Rightarrow>
                              (case enrich E enable_map_summary structure ns es (g3\<lparr>ids := k\<rparr>) of
                                 (result, g4) \<Rightarrow> (Inr result, g4)))
                       else
                         (Inr (parse_failed_result E txt root_title (ids g3)),
                          g3\<lparr>ids := Suc (ids g3)\<rparr>)))))"

section \<open>Companion content generator\<close>

text \<open>
  \<open>copilot.py\<close> defines \<open>generate_quiz_and_flashcards\<close> twice; the second definition
  replaces the first when the module is loaded. Both are modelled: the body of the
  \<open>try\<close> first, then the function with its handler. The number is the count of
  \<open>generate_content\<close> calls.
\<close>

definition pick_keys :: "json \<Rightarrow> exn + (json \<times> json)" where
  "pick_keys data =
     and_then (py_get data ''flashcards'' (JList [])) (\<lambda>flashcards.
     and_then (py_get data ''quiz'' (JList [])) (\<lambda>q. Inr (flashcards, q)))"

definition companion_body :: "env \<Rightarrow> string \<Rightarrow> nat \<Rightarrow> exn + (json \<times> json)" where
  "companion_body E summary_text n =
     (case generate_content E n (CompanionPrompt summary_text) of
        Raises e \<Rightarrow> Inl (ModelError e)
      | Response None r \<Rightarrow> Inl TypeError
      | Response (Some txt) r \<Rightarrow>
          (case regex_search txt of
             None \<Rightarrow> Inr (JList [], JList [])
           | Some m \<Rightarrow>
               (case json_loads E m of
                  None \<Rightarrow> Inl ValueError
                | Some data \<Rightarrow> pick_keys data)))"

definition generate_quiz_and_flashcards :: "env \<Rightarrow> string \<Rightarrow> nat \<Rightarrow> (json \<times> json) \<times> nat" where
  "generate_quiz_and_flashcards E summary_text n =
     (if strip summary_text = [] then ((JList [], JList []), n)
      else (case companion_body E summary_text n of
              Inl e \<Rightarrow> ((JList [], JList []), Suc n)
            | Inr r \<Rightarrow> (r, Suc n)))"

definition first_companion_body :: "env \<Rightarrow> string \<Rightarrow> nat \<Rightarrow> exn + (json \<times> json)" where
  "first_companion_body E summary_text n =
     (case generate_content E n (FirstCompanionPrompt summary_text) of
        Raises e \<Rightarrow> Inl (ModelError e)
      | Response None r \<Rightarrow> Inl TypeError
      | Response (Some txt) r \<Rightarrow>
          (case json_loads E txt of
             None \<Rightarrow> Inl ValueError
           | Some data \<Rightarrow> pick_keys data))"

definition first_generate_quiz_and_flashcards :: "env \<Rightarrow> string \<Rightarrow> nat \<Rightarrow> (json \<times> json) \<times> nat" where
  "first_generate_quiz_and_flashcards E summary_text n =
     (if strip summary_text = [] then ((JList [], JList []), n)
      else (case first_companion_body E summary_text n of
              Inl e \<Rightarrow> ((JList [], JList []), Suc n)
            | Inr r \<Rightarrow> (r, Suc n)))"

section \<open>Notions for the statements about the hierarchy builder\<close>

text \<open>
  The items below an item: the elements of its \<open>subtopics\<close> when that is a list.
  \<open>count_items\<close> is the number of items of an outline across all nesting depths.
\<close>

fun subtopics_of :: "json \<Rightarrow> json list" where
  "subtopics_of (JObj kvs) =
     (case map_of kvs ''subtopics'' of Some (JList xs) \<Rightarrow> xs | _ \<Rightarrow> [])"
| "subtopics_of v = []"

lemma size_subtopics_of: "size_list size (subtopics_of item) \<le> size item"
proof (cases item)
  case (JObj kvs)
  show ?thesis
  proof (cases "map_of kvs ''subtopics''")
    case None
    with JObj show ?thesis by simp
  next
    case (Some v)
    from size_map_of[OF Some] have "size v \<le> size item" using JObj by simp
    with JObj Some show ?thesis by (cases v) auto
  qed
qed auto

function count_items :: "json list \<Rightarrow> nat" where
  "count_items [] = 0"
| "count_items (item # rest) = Suc (count_items (subtopics_of item) + count_items rest)"
  by pat_completeness auto

termination count_items
  by (relation "measure (size_list size)") (auto simp: size_subtopics_of less_Suc_eq_le trans_le_add1)

text \<open>
  The outlines the builder accepts: every item, at every depth, is a dict whose \<open>title\<close>,
  \<open>summary\<close> and \<open>key_points\<close>, where present, are a str or a list. An item of the
  data model (strings, a list of strings, missing fields allowed) is of this kind.
\<close>

fun sliceable :: "json \<Rightarrow> bool" where
  "sliceable (JStr s) = True"
| "sliceable (JList xs) = True"
| "sliceable v = False"

fun field :: "json \<Rightarrow> string \<Rightarrow> json \<Rightarrow> json" where
  "field (JObj kvs) k d = (case map_of kvs k of Some v \<Rightarrow> v | None \<Rightarrow> d)"
| "field v k d = d"

definition item_ok :: "json \<Rightarrow> bool" where
  "item_ok item =
     (is_dict item \<and> sliceable (field item ''title'' (JStr []))
      \<and> sliceable (field item ''summary'' (JStr []))
      \<and> sliceable (field item ''key_points'' (JList [])))"

function outline_ok :: "json list \<Rightarrow> bool" where
  "outline_ok [] = True"
| "outline_ok (item # rest) = (item_ok item \<and> outline_ok (subtopics_of item) \<and> outline_ok rest)"
  by pat_completeness auto

termination outline_ok
  by (relation "measure (size_list size)") (auto simp: size_subtopics_of less_Suc_eq_le trans_le_add1)

text \<open>
  The outlines the recursion limit allows: every item lies at a level of at most \<open>mx\<close>,
  the items of the outline itself being at level \<open>lvl\<close>.
\<close>

function within_depth :: "nat \<Rightarrow> nat \<Rightarrow> json list \<Rightarrow> bool" where
  "within_depth mx lvl [] = True"
| "within_depth mx lvl (item # rest) =
     (lvl \<le> mx \<and> within_depth mx (Suc lvl) (subtopics_of item) \<and> within_depth mx lvl rest)"
  by pat_completeness auto

termination within_depth
  by (relation "measure (\<lambda>(mx, lvl, items). size_list size items)")
     (auto simp: size_subtopics_of less_Suc_eq_le trans_le_add1)

text \<open>The size bounds of a node: 140, 400 and 6.\<close>

definition node_bounded :: "node \<Rightarrow> bool" where
  "node_bounded n =
     ((\<exists>a. py_len (label n) = Some a \<and> a \<le> 140)
      \<and> (\<exists>b. py_len (summary n) = Some b \<and> b \<le> 400)
      \<and> (\<exists>kps c. key_points n = Some kps \<and> py_len kps = Some c \<and> c \<le> 6))"

text \<open>The number of edges that point to the node with identifier \<open>i\<close>.\<close>

definition inbound :: "edge list \<Rightarrow> string \<Rightarrow> nat" where
  "inbound es i = length (filter (\<lambda>e. target e = i) es)"

text \<open>
  Sources of UUIDs for the examples. The UUIDs of \<open>clash_hex\<close> differ and share their
  first eight digits; so do the second and third of \<open>sibling_hex\<close>. Those of \<open>fresh_hex\<close>
  differ in their first eight digits.
\<close>

definition clash_hex :: "nat \<Rightarrow> string" where
  "clash_hex k = (if k = 0 then ''deadbeef000040008000000000000000''
                  else ''deadbeef000040008000000000000001'')"

definition sibling_hex :: "nat \<Rightarrow> string" where
  "sibling_hex k = (if k = 0 then ''0a1b2c3d000040008000000000000000''
                    else if k = 1 then ''cafef00d000040008000000000000001''
                    else ''cafef00d000040008000000000000002'')"

definition fresh_hex :: "nat \<Rightarrow> string" where
  "fresh_hex k = (if k = 0 then ''0a1b2c3d000040008000000000000000''
                  else if k = 1 then ''1b2c3d4e000040008000000000000001''
                  else ''2c3d4e5f000040008000000000000002'')"

text \<open>Example outlines.\<close>

definition two_topics :: "json list" where
  "two_topics = [JObj [(''title'', JStr ''a'')], JObj [(''title'', JStr ''b'')]]"

definition small_tree :: "json list" where
  "small_tree =
     [JObj [(''title'', JStr ''r''),
            (''subtopics'', JList [JObj [(''title'', JStr ''a'')], JObj [(''title'', JStr ''b'')]])]]"

definition long_outline :: "json list" where
  "long_outline =
     [JObj [(''title'', JStr (replicate 150 CHR ''x'')),
            (''summary'', JStr (replicate 500 CHR ''y'')),
            (''key_points'', JList (replicate 7 (JStr ''p'')))]]"

definition chain :: "json list" where
  "chain =
     [JObj [(''title'', JStr ''a''),
            (''subtopics'', JList [JObj [(''title'', JStr ''b''),
                                         (''subtopics'', JList [JObj [(''title'', JStr ''c'')]])]])]]"

section \<open>Notions for the statements about the repair parser\<close>

text \<open>
  A position opens a span when it holds an opening brace and a closing brace follows, or
  an opening bracket and a closing bracket follows. \<open>first_greedy_span s m\<close> says that
  \<open>m\<close> is the first brace- or bracket-delimited span of \<open>s\<close>, taken greedily: no earlier
  position opens a span, and the closing character of \<open>m\<close> does not occur after it.
\<close>

fun opens_span :: "string \<Rightarrow> bool" where
  "opens_span [] = False"
| "opens_span (x # xs) =
     ((x = CHR ''{'' \<and> CHR ''}'' \<in> set xs) \<or> (x = CHR ''['' \<and> CHR '']'' \<in> set xs))"

definition delimited :: "string \<Rightarrow> bool" where
  "delimited m =
     (2 \<le> length m \<and>
      ((hd m = CHR ''{'' \<and> last m = CHR ''}'') \<or> (hd m = CHR ''['' \<and> last m = CHR '']'')))"

definition first_greedy_span :: "string \<Rightarrow> string \<Rightarrow> bool" where
  "first_greedy_span s m =
     (\<exists>pre post. s = pre @ m @ post \<and> delimited m
        \<and> (\<forall>i < length pre. \<not> opens_span (drop i s))
        \<and> last m \<notin> set post)"

text \<open>
  For the examples: \<open>demo_loads\<close> is a strict parser that knows the texts listed and
  returns what \<open>json.loads\<close> returns on them; \<open>demo_dumps\<close> writes a dict, a list and a
  tuple as \<open>json.dumps\<close> does (and the empty text for every other value).
\<close>

definition demo_loads :: "string \<Rightarrow> json option" where
  "demo_loads s = map_of
     [(''{\"a\":1}'', JObj [(''a'', JInt 1)]),
      (''{\"a\": 1}'', JObj [(''a'', JInt 1)]),
      (''[{\"title\": \"Cell biology\"}]'', JList [JObj [(''title'', JStr ''Cell biology'')]]),
      (''{\"thesis\": \"T\"}'', JObj [(''thesis'', JStr ''T'')]),
      (''{\"flashcards\": [1]}'', JObj [(''flashcards'', JList [JInt 1])]),
      (''[1]'', JList [JInt 1]),
      (''[1, 2]'', JList [JInt 1, JInt 2])] s"

definition demo_dumps :: "json \<Rightarrow> string" where
  "demo_dumps v =
     (if v = JObj [(''a'', JInt 1)] then ''{\"a\": 1}''
      else if v = JList [JInt 1, JInt 2] \<or> v = JTuple [JInt 1, JInt 2] then ''[1, 2]''
      else [])"

section \<open>Notions for the statements about the pipeline\<close>

text \<open>
  Environments for the examples. \<open>companion_env\<close>: the model wraps an object with the key
  \<open>flashcards\<close> in prose. \<open>object_env\<close>: the model answers every call with the object
  \<open>{"a":1}\<close>. \<open>blank_env\<close>: it answers with white space. \<open>failing_env\<close>: every call to it
  raises. \<open>demo_env\<close>: it answers the title, structure and summary prompts well and the
  batch prompt with \<open>[1]\<close>. \<open>batch_down_env\<close>: the same, but every call with the batch
  prompt raises. \<open>summary_down_env\<close>: as \<open>demo_env\<close>, but the summary prompt is answered
  with \<open>[1]\<close>. \<open>start\<close> is the state before the first call.
\<close>

definition companion_env :: env where
  "companion_env =
     \<lparr>generate_content =
        (\<lambda>n p. Response (Some ''Here you go: {\"flashcards\": [1]} enjoy'') ''response''),
      json_loads = demo_loads, json_dumps = (\<lambda>v. Inr []), uuid4_hex = fresh_hex,
      max_level = 990\<rparr>"

definition start :: pstate where
  "start = \<lparr>calls = 0, prompts = [], ids = 0\<rparr>"

definition object_env :: env where
  "object_env =
     \<lparr>generate_content = (\<lambda>n p. Response (Some ''{\"a\":1}'') ''response''),
      json_loads = demo_loads, json_dumps = (\<lambda>v. Inr []), uuid4_hex = fresh_hex,
      max_level = 990\<rparr>"

definition blank_env :: env where
  "blank_env =
     \<lparr>generate_content = (\<lambda>n p. Response (Some ''  '') ''response''),
      json_loads = demo_loads, json_dumps = (\<lambda>v. Inr []), uuid4_hex = fresh_hex,
      max_level = 990\<rparr>"

definition failing_env :: env where
  "failing_env =
     \<lparr>generate_content = (\<lambda>n p. Raises ''unreachable''),
      json_loads = demo_loads, json_dumps = (\<lambda>v. Inr []), uuid4_hex = fresh_hex,
      max_level = 990\<rparr>"

fun demo_model :: "nat \<Rightarrow> prompt \<Rightarrow> outcome" where
  "demo_model n (RootNamePrompt t) = Response (Some ''Cells'') ''response''"
| "demo_model n (StructurePrompt t) = Response (Some ''[{\"title\": \"Cell biology\"}]'') ''response''"
| "demo_model n (MapSummaryPrompt t) = Response (Some ''{\"thesis\": \"T\"}'') ''response''"
| "demo_model n (BatchPrompt ts) = Response (Some ''[1]'') ''response''"
| "demo_model n p = Raises ''unused''"

definition demo_env :: env where
  "demo_env =
     \<lparr>generate_content = demo_model,
      json_loads = demo_loads, json_dumps = (\<lambda>v. Inr []), uuid4_hex = fresh_hex,
      max_level = 990\<rparr>"





text \<open>The results of two runs, named for the examples.\<close>

definition fallback_demo :: mindmap where
  "fallback_demo =
     \<lparr>nodes = [\<lparr>node_id = ''root_0a1b2c3d'', label = JStr ''__GEMINI_ERROR__: unreachable'',
                 level = 0, summary = JStr ''abc'', key_points = None, ai_explanation = None\<rparr>],
      edges = [],
      meta = \<lparr>n_nodes = None, meta_summary = Some ''abc'', quiz = None, meta_keywords = None,
              error = None, warning = Some ''parse_failed'', summary_error = None,
              tooltip_error = None\<rparr>\<rparr>"

definition enriched_demo :: mindmap where
  "enriched_demo =
     \<lparr>nodes = [\<lparr>node_id = ''n0_0a1b2c3d'', label = JStr ''Cell biology'', level = 0,
                 summary = JStr [], key_points = Some (JList []),
                 ai_explanation = Some (JStr ''Explanation unavailable.'')\<rparr>],
      edges = [],
      meta = \<lparr>n_nodes = Some 1, meta_summary = Some ''T\<newline>\<newline>'', quiz = Some (JList []),
              meta_keywords = Some [''cell'', ''biology''], error = None, warning = None,
              summary_error = None, tooltip_error = Some AttributeError\<rparr>\<rparr>"

text \<open>
  The words as the specification orders the steps: lowercase and strip every token, then
  keep those longer than 3 characters. (The source tests the length of the token as
  split, see \<open>words_of\<close>.)
\<close>

definition claimed_words :: "string \<Rightarrow> string list" where
  "claimed_words text_pool =
     filter (\<lambda>w. length w > 3) (map (\<lambda>w. strip_chars ''.,:;()[]'' (lower w)) (split text_pool))"

text \<open>
  \<open>text_pool\<close> when every label and summary is a str. \<open>first_seen ws\<close> lists the distinct
  words in the order of their first occurrence. \<open>ranking_of ws ranked\<close>: \<open>ranked\<close> lists
  the distinct words of \<open>ws\<close> by descending frequency, those of equal frequency in the
  order of their first occurrence.
\<close>

definition text_pool_of :: "node list \<Rightarrow> string" where
  "text_pool_of ns = join '' '' (map (\<lambda>n. str_of (label n) @ '' '' @ str_of (summary n)) ns)"

definition first_seen :: "string list \<Rightarrow> string list" where
  "first_seen ws = rev (remdups (rev ws))"

definition ranking_of :: "string list \<Rightarrow> string list \<Rightarrow> bool" where
  "ranking_of ws ranked =
     (sorted (map (\<lambda>w. - int (count_list ws w)) ranked)
      \<and> (\<forall>c. filter (\<lambda>w. count_list ws w = c) ranked
             = filter (\<lambda>w. count_list ws w = c) (first_seen ws)))"

text \<open>Nodes for the examples.\<close>

definition bracket_node :: node where
  "bracket_node = \<lparr>node_id = ''n0_0a1b2c3d'', label = JStr ''(a).'', level = 0, summary = JStr [],
                    key_points = Some (JList []), ai_explanation = None\<rparr>"

definition cells_node :: node where
  "cells_node = \<lparr>node_id = ''n0_0a1b2c3d'', label = JStr ''Cell walls'', level = 0,
                  summary = JStr ''Plant cell walls; walls (rigid)'',
                  key_points = Some (JList []), ai_explanation = None\<rparr>"

definition list_node :: node where
  "list_node = \<lparr>node_id = ''n0_0a1b2c3d'', label = JList [JStr ''Cell walls''], level = 0,
                 summary = JStr [], key_points = Some (JList []), ai_explanation = None\<rparr>"

section \<open>Proofs\<close>

lemma truthy_py_or: "truthy (py_or x y) = (truthy x \<or> truthy y)"
  by (simp add: py_or_def)

subsection \<open>Structured-output repair\<close>

lemma upto_last_None: "(upto_last c xs = None) = (c \<notin> set xs)"
  by (induction xs) (auto split: option.splits)

lemma upto_last_Some:
  "upto_last c xs = Some r \<Longrightarrow> \<exists>post. xs = r @ post \<and> r \<noteq> [] \<and> last r = c \<and> c \<notin> set post"
proof (induction xs arbitrary: r)
  case Nil
  then show ?case by simp
next
  case (Cons x xs)
  show ?case
  proof (cases "upto_last c xs")
    case None
    with Cons.prems have "x = c" "r = [x]" by (auto split: if_splits)
    moreover from None have "c \<notin> set xs" by (simp add: upto_last_None)
    ultimately show ?thesis by simp
  next
    case (Some r')
    with Cons.prems have r: "r = x # r'" by simp
    from Cons.IH[OF Some] obtain post where "xs = r' @ post" "r' \<noteq> []" "last r' = c" "c \<notin> set post"
      by blast
    with r show ?thesis by simp
  qed
qed

lemma span_at_head:
  assumes "upto_last c xs = Some r" and "(x = CHR ''{'' \<and> c = CHR ''}'') \<or> (x = CHR ''['' \<and> c = CHR '']'')"
  shows "first_greedy_span (x # xs) (x # r)"
proof -
  from upto_last_Some[OF assms(1)] obtain post where
    p: "xs = r @ post" "r \<noteq> []" "last r = c" "c \<notin> set post" by blast
  have "delimited (x # r)"
    using p assms(2) by (cases r) (auto simp: delimited_def)
  moreover have "x # xs = [] @ (x # r) @ post" using p by simp
  moreover have "last (x # r) \<notin> set post" using p by simp
  ultimately show ?thesis unfolding first_greedy_span_def
    by (metis length_greater_0_conv less_nat_zero_code list.size(3))
qed

lemma span_later:
  assumes "first_greedy_span xs m" and "\<not> opens_span (x # xs)"
  shows "first_greedy_span (x # xs) m"
proof -
  from assms(1) obtain pre post where
    p: "xs = pre @ m @ post" "delimited m" "\<forall>i < length pre. \<not> opens_span (drop i xs)"
       "last m \<notin> set post"
    unfolding first_greedy_span_def by blast
  have "\<forall>i < length (x # pre). \<not> opens_span (drop i (x # xs))"
  proof (intro allI impI)
    fix i assume "i < length (x # pre)"
    then show "\<not> opens_span (drop i (x # xs))"
      using assms(2) p(3) by (cases i) auto
  qed
  moreover have "x # xs = (x # pre) @ m @ post" using p(1) by simp
  ultimately show ?thesis unfolding first_greedy_span_def using p(2,4) by blast
qed

lemma not_opens_span:
  assumes "\<not> opens_span (x # xs)"
  shows "regex_search (x # xs) = regex_search xs"
proof -
  from assms have a: "x = CHR ''{'' \<Longrightarrow> upto_last CHR ''}'' xs = None"
    and b: "x = CHR ''['' \<Longrightarrow> upto_last CHR '']'' xs = None"
    by (auto simp: upto_last_None)
  show ?thesis
    by (cases "x = CHR ''{''"; cases "x = CHR ''[''") (simp_all add: a b)
qed

lemma regex_search_Some: "regex_search s = Some m \<Longrightarrow> first_greedy_span s m"
proof (induction s)
  case Nil
  then show ?case by simp
next
  case (Cons x xs)
  consider (brace) r where "x = CHR ''{''" "upto_last CHR ''}'' xs = Some r"
    | (bracket) r where "x = CHR ''[''" "upto_last CHR '']'' xs = Some r"
    | (skip) "\<not> opens_span (x # xs)"
  proof (cases "opens_span (x # xs)")
    case False
    then show ?thesis by (rule that(3))
  next
    case True
    then consider "x = CHR ''{''" "CHR ''}'' \<in> set xs" | "x = CHR ''[''" "CHR '']'' \<in> set xs"
      by auto
    then show ?thesis
    proof cases
      case 1
      then obtain r where "upto_last CHR ''}'' xs = Some r"
        using upto_last_None[of "CHR ''}''" xs] by auto
      with 1 show ?thesis by (auto intro: that(1))
    next
      case 2
      then obtain r where "upto_last CHR '']'' xs = Some r"
        using upto_last_None[of "CHR '']''" xs] by auto
      with 2 show ?thesis by (auto intro: that(2))
    qed
  qed
  then show ?case
  proof cases
    case brace
    with Cons.prems have "m = x # r" by simp
    with brace show ?thesis by (simp add: span_at_head)
  next
    case bracket
    with Cons.prems have "m = x # r" by simp
    with bracket show ?thesis by (simp add: span_at_head)
  next
    case skip
    then have "regex_search (x # xs) = regex_search xs"
      by (rule not_opens_span)
    with Cons.prems have "regex_search xs = Some m" by simp
    then have "first_greedy_span xs m" by (rule Cons.IH)
    then show ?thesis using skip by (rule span_later)
  qed
qed

lemma regex_search_Cons_None:
  "regex_search (x # xs) = None \<Longrightarrow> \<not> opens_span (x # xs) \<and> regex_search xs = None"
proof -
  assume a: "regex_search (x # xs) = None"
  have "\<not> opens_span (x # xs)"
  proof
    assume "opens_span (x # xs)"
    then consider "x = CHR ''{''" "CHR ''}'' \<in> set xs" | "x = CHR ''[''" "CHR '']'' \<in> set xs"
      by auto
    then show False
    proof cases
      case 1
      then obtain r where "upto_last CHR ''}'' xs = Some r"
        using upto_last_None[of "CHR ''}''" xs] by auto
      with 1 a show False by simp
    next
      case 2
      then obtain r where "upto_last CHR '']'' xs = Some r"
        using upto_last_None[of "CHR '']''" xs] by auto
      with 2 a show False by simp
    qed
  qed
  moreover from this have "regex_search (x # xs) = regex_search xs"
    by (rule not_opens_span)
  ultimately show ?thesis using a by simp
qed

lemma regex_search_None: "regex_search s = None \<Longrightarrow> \<forall>i < length s. \<not> opens_span (drop i s)"
proof (induction s)
  case Nil
  then show ?case by simp
next
  case (Cons x xs)
  from regex_search_Cons_None[OF Cons.prems]
  have a: "\<not> opens_span (x # xs)" and b: "regex_search xs = None" by simp_all
  show ?case
  proof (intro allI impI)
    fix i assume "i < length (x # xs)"
    then show "\<not> opens_span (drop i (x # xs))"
      using a Cons.IH[OF b] by (cases i) auto
  qed
qed

lemma upto_last_append:
  "r \<noteq> [] \<Longrightarrow> last r = c \<Longrightarrow> c \<notin> set post \<Longrightarrow> upto_last c (r @ post) = Some r"
proof (induction r)
  case Nil
  then show ?case by simp
next
  case (Cons x r)
  show ?case
  proof (cases "r = []")
    case True
    with Cons.prems have "x = c" by simp
    moreover from Cons.prems(3) have "upto_last c post = None" by (simp add: upto_last_None)
    ultimately show ?thesis using True by simp
  next
    case False
    with Cons.prems have "last r = c" by simp
    from Cons.IH[OF False this Cons.prems(3)] show ?thesis by simp
  qed
qed

lemma regex_search_span:
  assumes "delimited m" and "last m \<notin> set post"
  shows "\<forall>i < length pre. \<not> opens_span (drop i (pre @ m @ post)) \<Longrightarrow>
         regex_search (pre @ m @ post) = Some m"
proof (induction pre)
  case Nil
  from assms(1) obtain x r where m: "m = x # r" "r \<noteq> []"
    by (cases m; cases "tl m") (auto simp: delimited_def)
  with assms(1) have d: "(x = CHR ''{'' \<and> last r = CHR ''}'') \<or> (x = CHR ''['' \<and> last r = CHR '']'')"
    by (auto simp: delimited_def)
  from assms(2) m have "last r \<notin> set post" by simp
  from upto_last_append[OF m(2) refl this] have "upto_last (last r) (r @ post) = Some r" .
  with d m(1) show ?case by auto
next
  case (Cons p pre)
  from Cons.prems have "\<not> opens_span (drop 0 ((p # pre) @ m @ post))" by blast
  then have "\<not> opens_span (p # (pre @ m @ post))" by simp
  then have "regex_search (p # (pre @ m @ post)) = regex_search (pre @ m @ post)"
    by (rule not_opens_span)
  moreover have "\<forall>i < length pre. \<not> opens_span (drop i (pre @ m @ post))"
  proof (intro allI impI)
    fix i assume "i < length pre"
    then have "Suc i < length (p # pre)" by simp
    with Cons.prems have "\<not> opens_span (drop (Suc i) ((p # pre) @ m @ post))" by blast
    then show "\<not> opens_span (drop i (pre @ m @ post))" by simp
  qed
  ultimately show ?case using Cons.IH by simp
qed

lemma first_greedy_span_search: "first_greedy_span s m \<Longrightarrow> regex_search s = Some m"
proof -
  assume "first_greedy_span s m"
  then obtain pre post where "s = pre @ m @ post" "delimited m"
    "\<forall>i < length pre. \<not> opens_span (drop i s)" "last m \<notin> set post"
    unfolding first_greedy_span_def by blast
  then show ?thesis using regex_search_span by blast
qed

lemma regex_search_no_span:
  "\<forall>i < length s. \<not> opens_span (drop i s) \<Longrightarrow> regex_search s = None"
proof (induction s)
  case Nil
  show ?case by simp
next
  case (Cons x xs)
  from Cons.prems have "\<not> opens_span (drop 0 (x # xs))" by blast
  then have "\<not> opens_span (x # xs)" by simp
  then have "regex_search (x # xs) = regex_search xs" by (rule not_opens_span)
  moreover have "\<forall>i < length xs. \<not> opens_span (drop i xs)"
  proof (intro allI impI)
    fix i assume "i < length xs"
    then have "Suc i < length (x # xs)" by simp
    with Cons.prems have "\<not> opens_span (drop (Suc i) (x # xs))" by blast
    then show "\<not> opens_span (drop i xs)" by simp
  qed
  ultimately show ?case using Cons.IH by simp
qed

text \<open>
  Claim C6, amended. The repair parser returns what the strict parser returns whenever
  that one succeeds, so on the text \<open>json.dumps\<close> writes for \<open>X\<close> it returns \<open>X\<close> exactly
  when \<open>json.loads\<close> does: the round trip \<open>parse(json_string(X)) = X\<close> holds for the values
  the library reproduces and for no other. When the strict parser fails, the strict
  parser is tried once more on the first greedy brace- or bracket-delimited span (any
  character may stand inside, a newline too), which the search finds whenever there is
  one, and the result is \<open>None\<close>, never an exception, when there is no span or the span
  does not parse. The text \<open>garbage text {"a":1} trailing\<close> yields the object \<open>{"a":1}\<close>.
\<close>
theorem repair_parser:
  "(\<forall>Y. loads (dumps X) = Some Y \<longrightarrow>
        safe_json_loads loads (dumps X) = Y \<and> ((safe_json_loads loads (dumps X) = X) = (Y = X)))
   \<and> (loads s = None \<longrightarrow>
        safe_json_loads loads s =
          (case regex_search s of
             None \<Rightarrow> JNull
           | Some m \<Rightarrow> (case loads m of None \<Rightarrow> JNull | Some v \<Rightarrow> v)))
   \<and> (\<forall>m. (regex_search s = Some m) = first_greedy_span s m)
   \<and> ((regex_search s = None) = (\<forall>i < length s. \<not> opens_span (drop i s)))
   \<and> (loads ''garbage text {\"a\":1} trailing'' = None
        \<and> loads ''{\"a\":1}'' = Some (JObj [(''a'', JInt 1)])
      \<longrightarrow> safe_json_loads loads ''garbage text {\"a\":1} trailing'' = JObj [(''a'', JInt 1)])"
proof (intro conjI impI allI)
  show "safe_json_loads loads (dumps X) = Y" if "loads (dumps X) = Some Y" for Y
    using that by (simp add: safe_json_loads_def)
  show "(safe_json_loads loads (dumps X) = X) = (Y = X)" if "loads (dumps X) = Some Y" for Y
    using that by (simp add: safe_json_loads_def)
  show "safe_json_loads loads s =
          (case regex_search s of
             None \<Rightarrow> JNull
           | Some m \<Rightarrow> (case loads m of None \<Rightarrow> JNull | Some v \<Rightarrow> v))" if "loads s = None"
    using that by (simp add: safe_json_loads_def split: option.splits)
  show "(regex_search s = Some m) = first_greedy_span s m" for m
    using regex_search_Some first_greedy_span_search by blast
  show "(regex_search s = None) = (\<forall>i < length s. \<not> opens_span (drop i s))"
    using regex_search_None regex_search_no_span by blast
  show "safe_json_loads loads ''garbage text {\"a\":1} trailing'' = JObj [(''a'', JInt 1)]"
    if "loads ''garbage text {\"a\":1} trailing'' = None
        \<and> loads ''{\"a\":1}'' = Some (JObj [(''a'', JInt 1)])"
    using that by (simp add: safe_json_loads_def)
qed

text \<open>
  The properties of C6 on the example text, on a dict written by \<open>json.dumps\<close> and on a
  text without any span, with the strict parser \<open>demo_loads\<close>.
\<close>

theorem repair_parser_witness:
  "safe_json_loads demo_loads ''garbage text {\"a\":1} trailing'' = JObj [(''a'', JInt 1)]
   \<and> safe_json_loads demo_loads (demo_dumps (JObj [(''a'', JInt 1)])) = JObj [(''a'', JInt 1)]
   \<and> regex_search ''garbage text {\"a\":1} trailing'' = Some ''{\"a\":1}''
   \<and> first_greedy_span ''garbage text {\"a\":1} trailing'' ''{\"a\":1}''
   \<and> safe_json_loads demo_loads ''no json here'' = JNull"
proof -
  have h: "demo_loads ''garbage text {\"a\":1} trailing'' = None
        \<and> demo_loads ''{\"a\":1}'' = Some (JObj [(''a'', JInt 1)])"
    by (simp add: demo_loads_def)
  have r: "regex_search ''garbage text {\"a\":1} trailing'' = Some ''{\"a\":1}''" by simp
  have n: "demo_loads ''no json here'' = None" and n': "regex_search ''no json here'' = None"
    by (simp_all add: demo_loads_def)
  have d: "demo_loads (demo_dumps (JObj [(''a'', JInt 1)])) = Some (JObj [(''a'', JInt 1)])"
    by (simp add: demo_loads_def demo_dumps_def)
  have "safe_json_loads demo_loads ''garbage text {\"a\":1} trailing'' = JObj [(''a'', JInt 1)]"
    by (rule mp[OF repair_parser[where loads = demo_loads,
          THEN conjunct2, THEN conjunct2, THEN conjunct2, THEN conjunct2] h])
  moreover have "safe_json_loads demo_loads (demo_dumps (JObj [(''a'', JInt 1)])) = JObj [(''a'', JInt 1)]"
    using mp[OF spec[OF repair_parser[where loads = demo_loads and dumps = demo_dumps
          and X = "JObj [(''a'', JInt 1)]", THEN conjunct1]] d] by simp
  moreover have "first_greedy_span ''garbage text {\"a\":1} trailing'' ''{\"a\":1}''"
    using spec[OF repair_parser[where s = "''garbage text {\"a\":1} trailing''",
          THEN conjunct2, THEN conjunct2, THEN conjunct1], of "''{\"a\":1}''"] r by simp
  moreover have "safe_json_loads demo_loads ''no json here'' = JNull"
    using mp[OF repair_parser[where loads = demo_loads and s = "''no json here''",
          THEN conjunct2, THEN conjunct1] n] n' by simp
  ultimately show ?thesis using r by blast
qed

text \<open>
  Claim C6 as stated fails: the tuple \<open>(1, 2)\<close> is JSON-serializable, \<open>json.dumps\<close> writes
  it as \<open>[1, 2]\<close>, and the parser returns the list \<open>[1, 2]\<close>, which is not the tuple.
\<close>

theorem repair_parser_tuple_counterexample:
  "demo_dumps (JTuple [JInt 1, JInt 2]) = ''[1, 2]''
   \<and> safe_json_loads demo_loads (demo_dumps (JTuple [JInt 1, JInt 2])) = JList [JInt 1, JInt 2]
   \<and> JList [JInt 1, JInt 2] \<noteq> JTuple [JInt 1, JInt 2]"
  by code_simp

subsection \<open>Hierarchy builder\<close>

lemma py_take_len: "py_take n v = Inr w \<Longrightarrow> \<exists>a. py_len w = Some a \<and> a \<le> n"
  by (cases v) auto

lemma py_take_ok: "sliceable v \<Longrightarrow> \<exists>w. py_take n v = Inr w"
  by (cases v) auto

lemma py_get_field: "is_dict item \<Longrightarrow> py_get item k d = Inr (field item k d)"
  by (cases item) auto

lemma item_fields_len:
  "item_fields item = Inr (lbl, smry, kps, sub) \<Longrightarrow>
     (\<exists>a. py_len lbl = Some a \<and> a \<le> 140) \<and> (\<exists>b. py_len smry = Some b \<and> b \<le> 400)
     \<and> (\<exists>c. py_len kps = Some c \<and> c \<le> 6)"
  by (auto simp: item_fields_def and_then_def split: sum.splits dest: py_take_len)

lemma item_fields_sub:
  "item_fields item = Inr (lbl, smry, kps, sub) \<Longrightarrow>
     (if is_list sub \<and> truthy sub then elements sub else []) = subtopics_of item"
proof -
  assume a: "item_fields item = Inr (lbl, smry, kps, sub)"
  then obtain kvs where i: "item = JObj kvs"
    by (cases item) (auto simp: item_fields_def and_then_def)
  with a have "sub = (case map_of kvs ''subtopics'' of Some v \<Rightarrow> v | None \<Rightarrow> JList [])"
    by (auto simp: item_fields_def and_then_def split: sum.splits)
  with i show ?thesis
    by (cases "map_of kvs ''subtopics''") (auto split: json.splits)
qed

lemma item_fields_ok: "item_ok item \<Longrightarrow> \<exists>r. item_fields item = Inr r"
proof -
  assume a: "item_ok item"
  then have d: "is_dict item" by (simp add: item_ok_def)
  from a obtain w1 where 1: "py_take 140 (field item ''title'' (JStr [])) = Inr w1"
    using py_take_ok by (auto simp: item_ok_def)
  from a obtain w2 where 2: "py_take 400 (field item ''summary'' (JStr [])) = Inr w2"
    using py_take_ok by (auto simp: item_ok_def)
  from a obtain w3 where 3: "py_take 6 (field item ''key_points'' (JList [])) = Inr w3"
    using py_take_ok by (auto simp: item_ok_def)
  show ?thesis
    by (simp add: item_fields_def and_then_def py_get_field[OF d] 1 2 3)
qed

lemma build_items_Cons:
  assumes "item_fields item = Inr (lbl, smry, kps, sub)" and "lvl \<le> mx"
  shows "build_items U mx (item # rest) parent lvl k ns es =
     (case build_items U mx (subtopics_of item) (Some (short_id U k (''n'' @ show_nat lvl))) (Suc lvl) (Suc k)
             (ns @ [\<lparr>node_id = short_id U k (''n'' @ show_nat lvl), label = lbl, level = lvl,
                      summary = smry, key_points = Some kps, ai_explanation = None\<rparr>])
             (es @ new_edges parent (short_id U k (''n'' @ show_nat lvl))) of
        Inl e \<Rightarrow> Inl e
      | Inr (k2, ns2, es2) \<Rightarrow> build_items U mx rest parent lvl k2 ns2 es2)"
proof (cases "is_list sub \<and> truthy sub")
  case True
  from assms(2) have d: "\<not> mx < lvl" by simp
  from True item_fields_sub[OF assms(1)] have "subtopics_of item = elements sub" by auto
  with True assms(1) d show ?thesis by (simp add: Let_def)
next
  case False
  from assms(2) have d: "\<not> mx < lvl" by simp
  from False item_fields_sub[OF assms(1)] have "subtopics_of item = []" by auto
  moreover from False have "(if is_list sub \<and> truthy sub then x else y) = y"
    for x y :: "exn \<times> nat + nat \<times> node list \<times> edge list"
    by auto
  ultimately show ?thesis using assms(1) d by (simp add: Let_def)
qed

lemma build_items_Cons_raises:
  "item_fields item = Inl e \<Longrightarrow> lvl \<le> mx \<Longrightarrow>
   build_items U mx (item # rest) parent lvl k ns es = Inl (e, Suc k)"
  by (simp add: Let_def)

lemma build_items_Cons_deep:
  "mx < lvl \<Longrightarrow> build_items U mx (item # rest) parent lvl k ns es = Inl (RecursionError, k)"
  by simp

lemma length_le_count_items: "length items \<le> count_items items"
  by (induction items rule: count_items.induct) auto

lemma short_id_nonempty: "short_id U k p \<noteq> []"
  by (simp add: short_id_def)

text \<open>
  What the builder returns on an outline within the depth the recursion limit allows:
  one node per item, identified by the UUIDs drawn in order, and one edge to every node
  that has a parent.
\<close>

lemma build_items_ok:
  "outline_ok items \<Longrightarrow> within_depth mx lvl items \<Longrightarrow>
   \<exists>ns' es'. build_items U mx items parent lvl k ns es = Inr (k + count_items items, ns @ ns', es @ es')
      \<and> length ns' = count_items items
      \<and> length es' = (if has_parent parent then count_items items else count_items items - length items)
      \<and> list_all2 (\<lambda>n j. \<exists>p. node_id n = short_id U j p) ns' [k ..< k + count_items items]
      \<and> (\<forall>n\<in>set ns'. lvl \<le> level n)
      \<and> map target es' = map node_id (filter (\<lambda>n. has_parent parent \<or> level n \<noteq> lvl) ns')
      \<and> length (filter (\<lambda>n. level n = lvl) ns') = length items
      \<and> (\<forall>n\<in>set ns'. \<exists>j. node_id n = short_id U j (''n'' @ show_nat (level n)))"
proof (induction items arbitrary: parent lvl k ns es rule: count_items.induct)
  case 1
  show ?case by simp
next
  case (2 item rest)
  from "2.prems"(1) have ok: "item_ok item" and okA: "outline_ok (subtopics_of item)"
    and okB: "outline_ok rest" by simp_all
  from "2.prems"(2) have dp: "lvl \<le> mx" and dpA: "within_depth mx (Suc lvl) (subtopics_of item)"
    and dpB: "within_depth mx lvl rest" by simp_all
  from item_fields_ok[OF ok] obtain lbl smry kps sub where
    f: "item_fields item = Inr (lbl, smry, kps, sub)" by (metis prod_cases4)
  define nid where "nid = short_id U k (''n'' @ show_nat lvl)"
  define n0 where "n0 = \<lparr>node_id = nid, label = lbl, level = lvl, summary = smry,
                          key_points = Some kps, ai_explanation = None\<rparr>"
  define e0 where "e0 = new_edges parent nid"
  define cA where "cA = count_items (subtopics_of item)"
  define cB where "cB = count_items rest"
  have hp: "has_parent (Some nid)" by (simp add: nid_def short_id_nonempty)
  from "2.IH"(1)[OF okA dpA, of "Some nid" "Suc k" "ns @ [n0]" "es @ e0"]
  obtain nsA esA where
    A: "build_items U mx (subtopics_of item) (Some nid) (Suc lvl) (Suc k) (ns @ [n0]) (es @ e0)
          = Inr (Suc k + cA, (ns @ [n0]) @ nsA, (es @ e0) @ esA)"
    and lnA: "length nsA = cA" and leA: "length esA = cA"
    and idA: "list_all2 (\<lambda>n j. \<exists>p. node_id n = short_id U j p) nsA [Suc k ..< Suc k + cA]"
    and lvA: "\<forall>n\<in>set nsA. Suc lvl \<le> level n"
    and tgA: "map target esA = map node_id nsA"
    and fmA: "\<forall>n\<in>set nsA. \<exists>j. node_id n = short_id U j (''n'' @ show_nat (level n))"
    using hp unfolding cA_def by auto
  have tpA: "filter (\<lambda>n. level n = lvl) nsA = []"
    using lvA by (auto simp: filter_empty_conv)
  from "2.IH"(2)[OF okB dpB, of parent "Suc k + cA" "(ns @ [n0]) @ nsA" "(es @ e0) @ esA"]
  obtain nsB esB where
    B: "build_items U mx rest parent lvl (Suc k + cA) ((ns @ [n0]) @ nsA) ((es @ e0) @ esA)
          = Inr (Suc k + cA + cB, ((ns @ [n0]) @ nsA) @ nsB, ((es @ e0) @ esA) @ esB)"
    and lnB: "length nsB = cB"
    and leB: "length esB = (if has_parent parent then cB else cB - length rest)"
    and idB: "list_all2 (\<lambda>n j. \<exists>p. node_id n = short_id U j p) nsB [Suc k + cA ..< Suc k + cA + cB]"
    and lvB: "\<forall>n\<in>set nsB. lvl \<le> level n"
    and tgB: "map target esB = map node_id (filter (\<lambda>n. has_parent parent \<or> level n \<noteq> lvl) nsB)"
    and tpB: "length (filter (\<lambda>n. level n = lvl) nsB) = length rest"
    and fmB: "\<forall>n\<in>set nsB. \<exists>j. node_id n = short_id U j (''n'' @ show_nat (level n))"
    unfolding cB_def by blast
  have cnt: "count_items (item # rest) = Suc (cA + cB)" by (simp add: cA_def cB_def)
  have run: "build_items U mx (item # rest) parent lvl k ns es
      = Inr (k + count_items (item # rest), ns @ (n0 # nsA @ nsB), es @ (e0 @ esA @ esB))"
    unfolding build_items_Cons[OF f dp] cnt
    using A B by (simp add: nid_def n0_def e0_def)
  have ln: "length (n0 # nsA @ nsB) = count_items (item # rest)"
    using lnA lnB cnt by simp
  have le0: "length e0 = (if has_parent parent then 1 else 0)"
    by (cases parent) (auto simp: e0_def)
  have le: "length (e0 @ esA @ esB)
      = (if has_parent parent then count_items (item # rest)
         else count_items (item # rest) - length (item # rest))"
    using le0 leA leB cnt length_le_count_items[of rest] by (auto simp: cB_def)
  have upt: "[k ..< k + count_items (item # rest)]
      = k # [Suc k ..< Suc k + cA] @ [Suc k + cA ..< Suc k + cA + cB]"
  proof -
    have "[k ..< k + Suc (cA + cB)] = k # [Suc k ..< k + Suc (cA + cB)]"
      by (rule upt_conv_Cons) simp
    moreover have "[Suc k ..< Suc k + cA + cB] = [Suc k ..< Suc k + cA] @ [Suc k + cA ..< Suc k + cA + cB]"
      by (rule upt_add_eq_append) simp
    ultimately show ?thesis unfolding cnt by (simp add: add.assoc)
  qed
  have id0: "\<exists>p. node_id n0 = short_id U k p" by (auto simp: n0_def nid_def)
  have ids: "list_all2 (\<lambda>n j. \<exists>p. node_id n = short_id U j p) (n0 # nsA @ nsB)
      [k ..< k + count_items (item # rest)]"
    unfolding upt using id0 idA idB by (simp add: list_all2_appendI)
  have lv: "\<forall>n\<in>set (n0 # nsA @ nsB). lvl \<le> level n"
    using lvA lvB by (auto simp: n0_def)
  have fA: "filter (\<lambda>n. has_parent parent \<or> level n \<noteq> lvl) nsA = nsA"
    using lvA by (auto simp: filter_id_conv)
  have t0: "map target e0 = map node_id (filter (\<lambda>n. has_parent parent \<or> level n \<noteq> lvl) [n0])"
    by (cases parent) (auto simp: e0_def n0_def)
  have tg: "map target (e0 @ esA @ esB)
      = map node_id (filter (\<lambda>n. has_parent parent \<or> level n \<noteq> lvl) (n0 # nsA @ nsB))"
  proof -
    have "filter (\<lambda>n. has_parent parent \<or> level n \<noteq> lvl) (n0 # nsA @ nsB)
        = filter (\<lambda>n. has_parent parent \<or> level n \<noteq> lvl) [n0] @ nsA
          @ filter (\<lambda>n. has_parent parent \<or> level n \<noteq> lvl) nsB"
      using fA by (metis append_Cons append_Nil filter_append)
    then show ?thesis using t0 tgA tgB by (simp only: map_append)
  qed
  have tp: "length (filter (\<lambda>n. level n = lvl) (n0 # nsA @ nsB)) = length (item # rest)"
    using tpA tpB by (simp add: n0_def)
  have fm: "\<forall>n\<in>set (n0 # nsA @ nsB). \<exists>j. node_id n = short_id U j (''n'' @ show_nat (level n))"
    using fmA fmB by (auto simp: n0_def nid_def)
  from run ln le ids lv tg tp fm show ?case by blast
qed

text \<open>
  On an outline with an item at a level deeper than the recursion limit allows, the
  builder raises \<open>RecursionError\<close>.
\<close>

lemma build_items_too_deep:
  "outline_ok items \<Longrightarrow> \<not> within_depth mx lvl items \<Longrightarrow>
   \<exists>k'. build_items U mx items parent lvl k ns es = Inl (RecursionError, k')"
proof (induction items arbitrary: parent lvl k ns es rule: count_items.induct)
  case 1
  then show ?case by simp
next
  case (2 item rest)
  from "2.prems"(1) have ok: "item_ok item" and okA: "outline_ok (subtopics_of item)"
    and okB: "outline_ok rest" by simp_all
  show ?case
  proof (cases "mx < lvl")
    case True
    then show ?thesis by (simp add: build_items_Cons_deep)
  next
    case False
    then have dp: "lvl \<le> mx" by simp
    from item_fields_ok[OF ok] obtain lbl smry kps sub where
      f: "item_fields item = Inr (lbl, smry, kps, sub)" by (metis prod_cases4)
    note c = build_items_Cons[OF f dp, of U rest parent k ns es]
    show ?thesis
    proof (cases "within_depth mx (Suc lvl) (subtopics_of item)")
      case False
      from "2.IH"(1)[OF okA False] obtain k' where
        "build_items U mx (subtopics_of item) (Some (short_id U k (''n'' @ show_nat lvl))) (Suc lvl) (Suc k)
             (ns @ [\<lparr>node_id = short_id U k (''n'' @ show_nat lvl), label = lbl, level = lvl,
                      summary = smry, key_points = Some kps, ai_explanation = None\<rparr>])
             (es @ new_edges parent (short_id U k (''n'' @ show_nat lvl))) = Inl (RecursionError, k')"
        by blast
      with c show ?thesis by simp
    next
      case True
      with "2.prems"(2) dp have nB: "\<not> within_depth mx lvl rest" by simp
      from build_items_ok[OF okA True] obtain k2 ns2 es2 where
        "build_items U mx (subtopics_of item) (Some (short_id U k (''n'' @ show_nat lvl))) (Suc lvl) (Suc k)
             (ns @ [\<lparr>node_id = short_id U k (''n'' @ show_nat lvl), label = lbl, level = lvl,
                      summary = smry, key_points = Some kps, ai_explanation = None\<rparr>])
             (es @ new_edges parent (short_id U k (''n'' @ show_nat lvl))) = Inr (k2, ns2, es2)"
        by blast
      with c have "build_items U mx (item # rest) parent lvl k ns es
          = build_items U mx rest parent lvl k2 ns2 es2" by simp
      with "2.IH"(2)[OF okB nB, of parent k2 ns2 es2] show ?thesis by simp
    qed
  qed
qed

lemma short_id_tail:
  assumes "short_id U i p = short_id U j q" "8 \<le> length (U i)" "8 \<le> length (U j)"
  shows "take 8 (U i) = take 8 (U j)"
proof -
  have "(p @ ''_'') @ take 8 (U i) = (q @ ''_'') @ take 8 (U j)"
    using assms(1) by (simp add: short_id_def)
  moreover have "length (take 8 (U i)) = length (take 8 (U j))"
    using assms(2,3) by simp
  ultimately show ?thesis by (metis append_eq_append_conv)
qed

lemma drawn_ids_distinct:
  assumes ids: "list_all2 (\<lambda>n j. \<exists>p. node_id n = short_id U j p) ns [k ..< k + c]"
    and len: "\<forall>j. 8 \<le> length (U j)"
    and inj: "inj_on (\<lambda>j. take 8 (U j)) {k ..< k + c}"
  shows "distinct (map node_id ns)"
proof -
  have l: "length ns = c" using list_all2_lengthD[OF ids] by simp
  have "node_id (ns ! a) \<noteq> node_id (ns ! b)" if "a < c" "b < c" "a \<noteq> b" for a b
  proof
    assume eq: "node_id (ns ! a) = node_id (ns ! b)"
    from list_all2_nthD[OF ids, of a] that(1) l obtain p where
      pa: "node_id (ns ! a) = short_id U (k + a) p" by auto
    from list_all2_nthD[OF ids, of b] that(2) l obtain q where
      pb: "node_id (ns ! b) = short_id U (k + b) q" by auto
    from eq pa pb have "short_id U (k + a) p = short_id U (k + b) q" by simp
    then have "take 8 (U (k + a)) = take 8 (U (k + b))"
      using len by (auto intro: short_id_tail)
    with inj that(1,2) have "k + a = k + b" by (auto dest: inj_onD)
    with that(3) show False by simp
  qed
  then show ?thesis using l by (auto simp: distinct_conv_nth)
qed

lemma one_occurrence:
  "distinct (map f xs) \<Longrightarrow> x \<in> set xs \<Longrightarrow> length (filter (\<lambda>y. f y = f x) xs) = 1"
proof (induction xs)
  case Nil
  then show ?case by simp
next
  case (Cons a xs)
  show ?case
  proof (cases "f a = f x")
    case True
    with Cons.prems(1) have "f x \<notin> f ` set xs" by simp
    then have "\<forall>y\<in>set xs. f y \<noteq> f x" by (metis image_eqI)
    then have "filter (\<lambda>y. f y = f x) xs = []" by (simp add: filter_empty_conv)
    with True show ?thesis by simp
  next
    case False
    with Cons.prems have "x \<in> set xs" "distinct (map f xs)" by auto
    with Cons.IH False show ?thesis by simp
  qed
qed

lemma build_items_bounded:
  "build_items U mx items parent lvl k ns es = Inr (k', ns', es') \<Longrightarrow>
   \<forall>n\<in>set ns. node_bounded n \<Longrightarrow> \<forall>n\<in>set ns'. node_bounded n"
proof (induction items arbitrary: parent lvl k ns es k' ns' es' rule: count_items.induct)
  case 1
  then show ?case by simp
next
  case (2 item rest)
  have dp: "lvl \<le> mx"
  proof (rule ccontr)
    assume "\<not> lvl \<le> mx"
    then have "mx < lvl" by simp
    from build_items_Cons_deep[OF this] "2.prems"(1) show False by simp
  qed
  show ?case
  proof (cases "item_fields item")
    case (Inl e)
    from build_items_Cons_raises[OF Inl dp] "2.prems"(1) show ?thesis by simp
  next
    case (Inr r)
    then obtain lbl smry kps sub where f: "item_fields item = Inr (lbl, smry, kps, sub)"
      by (metis prod_cases4)
    define nid where "nid = short_id U k (''n'' @ show_nat lvl)"
    define n0 where "n0 = \<lparr>node_id = nid, label = lbl, level = lvl, summary = smry,
                            key_points = Some kps, ai_explanation = None\<rparr>"
    have b0: "node_bounded n0"
      using item_fields_len[OF f] by (simp add: node_bounded_def n0_def)
    from "2.prems"(1) obtain k2 ns2 es2 where
      A: "build_items U mx (subtopics_of item) (Some nid) (Suc lvl) (Suc k) (ns @ [n0])
            (es @ new_edges parent nid) = Inr (k2, ns2, es2)"
      and B: "build_items U mx rest parent lvl k2 ns2 es2 = Inr (k', ns', es')"
      unfolding build_items_Cons[OF f dp] nid_def n0_def
      by (auto split: sum.splits)
    have "\<forall>n\<in>set (ns @ [n0]). node_bounded n" using "2.prems"(2) b0 by simp
    from "2.IH"(1)[OF A this] have "\<forall>n\<in>set ns2. node_bounded n" .
    from "2.IH"(2)[OF B this] show ?thesis .
  qed
qed

lemma build_graph_ok:
  assumes "outline_ok items" and "within_depth mx 0 items"
  shows "\<exists>ns es. build_graph_from_hierarchy U mx (JList items) k = Inr (k + count_items items, ns, es)
      \<and> length ns = count_items items
      \<and> length es = count_items items - length items
      \<and> list_all2 (\<lambda>n j. \<exists>p. node_id n = short_id U j p) ns [k ..< k + count_items items]
      \<and> map target es = map node_id (filter (\<lambda>n. level n \<noteq> 0) ns)
      \<and> length (filter (\<lambda>n. level n = 0) ns) = length items
      \<and> (\<forall>n\<in>set ns. \<exists>j. node_id n = short_id U j (''n'' @ show_nat (level n)))"
  using build_items_ok[OF assms, of U None k "[]" "[]"]
  by (auto simp: build_graph_from_hierarchy_def)

text \<open>
  The counts of the builder: on an outline with \<open>N\<close> items across all depths, none
  deeper than the recursion limit allows, it returns \<open>N\<close> nodes and \<open>N\<close> minus the number
  of top-level items edges. The identifiers are those of \<open>_short_id\<close>; they are pairwise
  distinct when the eight-digit prefixes of the UUIDs drawn are.
\<close>

lemma build_graph_counts:
  assumes "outline_ok items" and "within_depth mx 0 items"
  shows "\<exists>k' ns es. build_graph_from_hierarchy U mx (JList items) k = Inr (k', ns, es)
      \<and> length ns = count_items items
      \<and> length es = count_items items - length items
      \<and> ((\<forall>j. 8 \<le> length (U j)) \<and> inj_on (\<lambda>j. take 8 (U j)) {k ..< k + count_items items}
           \<longrightarrow> distinct (map node_id ns))"
proof -
  from build_graph_ok[OF assms, of U k] obtain ns es where
    r: "build_graph_from_hierarchy U mx (JList items) k = Inr (k + count_items items, ns, es)"
    and ln: "length ns = count_items items" and le: "length es = count_items items - length items"
    and ids: "list_all2 (\<lambda>n j. \<exists>p. node_id n = short_id U j p) ns [k ..< k + count_items items]"
    by blast
  have "distinct (map node_id ns)"
    if "(\<forall>j. 8 \<le> length (U j)) \<and> inj_on (\<lambda>j. take 8 (U j)) {k ..< k + count_items items}"
    using drawn_ids_distinct[OF ids] that by blast
  with r ln le show ?thesis by blast
qed

text \<open>
  Claim C3 says that every node id in the result is unique, and the docstring of
  \<open>_short_id\<close> says that it generates unique ids. The function keeps only the first
  eight hexadecimal digits of each UUID, so two distinct UUIDs that share them give two
  nodes of one level the same id: on an outline of two top-level items the builder
  returns two nodes with the id \<open>n0_deadbeef\<close>.
\<close>

theorem short_id_collision:
  "build_graph_from_hierarchy clash_hex 990 (JList two_topics) 0 =
     Inr (2, [\<lparr>node_id = ''n0_deadbeef'', label = JStr ''a'', level = 0, summary = JStr [],
                key_points = Some (JList []), ai_explanation = None\<rparr>,
              \<lparr>node_id = ''n0_deadbeef'', label = JStr ''b'', level = 0, summary = JStr [],
                key_points = Some (JList []), ai_explanation = None\<rparr>], [])
   \<and> \<not> distinct [''n0_deadbeef'', ''n0_deadbeef'']
   \<and> clash_hex 0 \<noteq> clash_hex 1"
  by code_simp

text \<open>
  A chain of three nested items when the recursion limit allows the levels 0 and 1 only:
  the builder raises \<open>RecursionError\<close> after two UUIDs, although the outline is well
  formed and has three items.
\<close>

lemma build_graph_recursion_limit:
  "build_graph_from_hierarchy fresh_hex 1 (JList chain) 0 = Inl (RecursionError, 2)
   \<and> outline_ok chain \<and> count_items chain = 3"
  by code_simp

text \<open>
  Claim C4. Every node the builder returns, whatever the hierarchy, has a label of length
  at most 140, a summary of length at most 400 and at most 6 key points; and on every
  outline within the depth the recursion limit allows the builder does return nodes, one
  per item.
\<close>
theorem build_graph_bounds:
  "(outline_ok items \<and> within_depth mx 0 items \<longrightarrow>
      (\<exists>k' ns es. build_graph_from_hierarchy U mx (JList items) k = Inr (k', ns, es)
         \<and> length ns = count_items items))
   \<and> (\<forall>k' ns es. build_graph_from_hierarchy U mx hierarchy k = Inr (k', ns, es)
         \<longrightarrow> (\<forall>n\<in>set ns. node_bounded n))"
proof (intro conjI impI allI)
  assume "outline_ok items \<and> within_depth mx 0 items"
  then have "outline_ok items" "within_depth mx 0 items" by simp_all
  from build_graph_ok[OF this, of U k]
  show "\<exists>k' ns es. build_graph_from_hierarchy U mx (JList items) k = Inr (k', ns, es)
         \<and> length ns = count_items items" by blast
next
  fix k' ns es
  assume r: "build_graph_from_hierarchy U mx hierarchy k = Inr (k', ns, es)"
  then obtain items where "build_items U mx items None 0 k [] [] = Inr (k', ns, es)"
    by (auto simp: build_graph_from_hierarchy_def split: sum.splits)
  from build_items_bounded[OF this] show "\<forall>n\<in>set ns. node_bounded n" by simp
qed

lemma long_outline_ok: "outline_ok long_outline \<and> within_depth 990 0 long_outline"
  by (simp add: long_outline_def item_ok_def)

lemma count_long_outline: "count_items long_outline = 1"
  by (simp add: long_outline_def)

text \<open>The theorem on an item with a title of 150 characters, a summary of 500 and 7 key points.\<close>

theorem build_graph_bounds_witness:
  "\<exists>k' ns es. build_graph_from_hierarchy fresh_hex 990 (JList long_outline) 0 = Inr (k', ns, es)
      \<and> length ns = 1 \<and> list_all node_bounded ns"
proof -
  note t = build_graph_bounds[where items = long_outline and U = fresh_hex and k = 0
      and mx = 990 and hierarchy = "JList long_outline"]
  from mp[OF t[THEN conjunct1] long_outline_ok] obtain k' ns es where
    r: "build_graph_from_hierarchy fresh_hex 990 (JList long_outline) 0 = Inr (k', ns, es)"
    and l: "length ns = count_items long_outline" by blast
  from t[THEN conjunct2] r have "\<forall>n\<in>set ns. node_bounded n" by blast
  then have "list_all node_bounded ns" by (simp add: list_all_iff)
  with r l show ?thesis by (auto simp: count_long_outline)
qed

lemma inbound_zero: "(inbound es i = 0) = (i \<notin> set (map target es))"
  by (auto simp: inbound_def filter_empty_conv)

lemma unique_target:
  assumes "distinct (map target es)" "e \<in> set es"
  shows "inbound es (target e) = 1"
  unfolding inbound_def using assms by (rule one_occurrence)

text \<open>
  The identifier of a top-level node starts with \<open>n0\<close>, that of a deeper node with \<open>n\<close>
  and a digit other than 0, so no edge points to a top-level node.
\<close>

lemma digit_char_zero: "digit_char 0 = CHR ''0''"
  by code_simp

lemma show_nat_nonempty: "show_nat n \<noteq> []"
  by (subst show_nat.simps) simp

lemma digit_char_nonzero: "0 < d \<Longrightarrow> d < 10 \<Longrightarrow> digit_char d \<noteq> CHR ''0''"
proof -
  assume "0 < d" "d < 10"
  then have "(48 + d) mod 256 \<noteq> (48 + 0) mod (256::nat)" by simp
  then have "digit_char d \<noteq> digit_char 0"
    unfolding digit_char_def char_of_quasi_inj by simp
  then show ?thesis by (simp add: digit_char_zero)
qed

lemma show_nat_hd: "0 < n \<Longrightarrow> hd (show_nat n) \<noteq> CHR ''0''"
proof (induction n rule: show_nat.induct)
  case (1 n)
  show ?case
  proof (cases "n < 10")
    case True
    with "1.prems" show ?thesis
      by (subst show_nat.simps) (simp add: digit_char_nonzero)
  next
    case False
    then have "0 < n div 10" by simp
    with "1.IH" False have "hd (show_nat (n div 10)) \<noteq> CHR ''0''" by simp
    with False show ?thesis
      by (subst show_nat.simps) (simp add: show_nat_nonempty)
  qed
qed

lemma show_nat_zero: "show_nat 0 = ''0''"
  by (subst show_nat.simps) (simp add: digit_char_zero)

lemma top_level_id_differs:
  assumes "0 < l"
  shows "short_id U i (''n'' @ show_nat 0) \<noteq> short_id U j (''n'' @ show_nat l)"
proof
  assume "short_id U i (''n'' @ show_nat 0) = short_id U j (''n'' @ show_nat l)"
  then have "''0_'' @ take 8 (U i) = show_nat l @ ''_'' @ take 8 (U j)"
    by (simp add: short_id_def show_nat_zero)
  then have "hd (''0_'' @ take 8 (U i)) = hd (show_nat l @ ''_'' @ take 8 (U j))" by simp
  then have "CHR ''0'' = hd (show_nat l)" by (simp add: show_nat_nonempty)
  with show_nat_hd[OF assms] show False by simp
qed

lemma roots_are_top_level:
  assumes f: "\<forall>n\<in>set ns. \<exists>j. node_id n = short_id U j (''n'' @ show_nat (level n))"
    and t: "map target es = map node_id (filter (\<lambda>n. level n \<noteq> (0::nat)) ns)"
  shows "filter (\<lambda>n. inbound es (node_id n) = 0) ns = filter (\<lambda>n. level n = 0) ns"
proof (rule filter_cong[OF refl])
  fix n assume n: "n \<in> set ns"
  have "(node_id n \<in> set (map target es)) = (level n \<noteq> 0)"
  proof
    assume "node_id n \<in> set (map target es)"
    then obtain m where m: "m \<in> set ns" "level m \<noteq> 0" "node_id m = node_id n"
      unfolding t by auto
    from f m(1) obtain j where j: "node_id m = short_id U j (''n'' @ show_nat (level m))"
      by blast
    from f n obtain i where i: "node_id n = short_id U i (''n'' @ show_nat (level n))"
      by blast
    show "level n \<noteq> 0"
    proof
      assume "level n = 0"
      with i j m(3) have "short_id U i (''n'' @ show_nat 0) = short_id U j (''n'' @ show_nat (level m))"
        by simp
      with top_level_id_differs[of "level m" U i j] m(2) show False by simp
    qed
  next
    assume "level n \<noteq> 0"
    with n show "node_id n \<in> set (map target es)" unfolding t by auto
  qed
  then show "(inbound es (node_id n) = 0) = (level n = 0)"
    by (simp add: inbound_zero)
qed

text \<open>
  The shape of the graph: edges name nodes by identifier, one edge per node below the
  top level. When the eight-digit prefixes of the UUIDs drawn are pairwise distinct, the
  target of every edge has exactly one inbound edge. Whatever the UUIDs, the nodes
  without an inbound edge are the top-level ones.
\<close>

lemma build_graph_tree:
  assumes "outline_ok items" and "within_depth mx 0 items"
  shows "\<exists>k' ns es. build_graph_from_hierarchy U mx (JList items) k = Inr (k', ns, es)
     \<and> ((\<forall>j. 8 \<le> length (U j)) \<and> inj_on (\<lambda>j. take 8 (U j)) {k ..< k + count_items items}
         \<longrightarrow> (\<forall>e\<in>set es. inbound es (target e) = 1))
     \<and> length (filter (\<lambda>n. inbound es (node_id n) = 0) ns) = length items"
proof -
  from build_graph_ok[OF assms, of U k] obtain ns es where
    r: "build_graph_from_hierarchy U mx (JList items) k = Inr (k + count_items items, ns, es)"
    and ids: "list_all2 (\<lambda>n j. \<exists>p. node_id n = short_id U j p) ns [k ..< k + count_items items]"
    and tg: "map target es = map node_id (filter (\<lambda>n. level n \<noteq> 0) ns)"
    and tp: "length (filter (\<lambda>n. level n = 0) ns) = length items"
    and fm: "\<forall>n\<in>set ns. \<exists>j. node_id n = short_id U j (''n'' @ show_nat (level n))"
    by blast
  have 1: "\<forall>e\<in>set es. inbound es (target e) = 1"
    if h: "(\<forall>j. 8 \<le> length (U j)) \<and> inj_on (\<lambda>j. take 8 (U j)) {k ..< k + count_items items}"
  proof -
    from drawn_ids_distinct[OF ids] h have d: "distinct (map node_id ns)" by blast
    then have "distinct (map target es)" unfolding tg by (rule distinct_map_filter)
    then show ?thesis by (blast intro: unique_target)
  qed
  from roots_are_top_level[OF fm tg] tp
  have 2: "length (filter (\<lambda>n. inbound es (node_id n) = 0) ns) = length items" by simp
  from r 1 2 show ?thesis by auto
qed

text \<open>
  Claim C5 says that every edge's target has exactly one inbound edge. Edges name nodes
  by the ids of \<open>_short_id\<close>, whose docstring says they are unique; the function keeps
  only the first eight hexadecimal digits of each UUID. On a root with two children whose
  distinct UUIDs share these digits both children get the id \<open>n1_cafef00d\<close>, and
  that target has two inbound edges.
\<close>

theorem sibling_id_collision:
  "build_graph_from_hierarchy sibling_hex 990 (JList small_tree) 0 =
     Inr (3, [\<lparr>node_id = ''n0_0a1b2c3d'', label = JStr ''r'', level = 0, summary = JStr [],
                key_points = Some (JList []), ai_explanation = None\<rparr>,
              \<lparr>node_id = ''n1_cafef00d'', label = JStr ''a'', level = 1, summary = JStr [],
                key_points = Some (JList []), ai_explanation = None\<rparr>,
              \<lparr>node_id = ''n1_cafef00d'', label = JStr ''b'', level = 1, summary = JStr [],
                key_points = Some (JList []), ai_explanation = None\<rparr>],
             [\<lparr>source = ''n0_0a1b2c3d'', target = ''n1_cafef00d''\<rparr>,
              \<lparr>source = ''n0_0a1b2c3d'', target = ''n1_cafef00d''\<rparr>])
   \<and> inbound [\<lparr>source = ''n0_0a1b2c3d'', target = ''n1_cafef00d''\<rparr>,
               \<lparr>source = ''n0_0a1b2c3d'', target = ''n1_cafef00d''\<rparr>] ''n1_cafef00d'' = 2
   \<and> sibling_hex 1 \<noteq> sibling_hex 2"
  by code_simp

subsection \<open>Companion generator and pipeline\<close>

lemma strip_with_empty: "(strip_with p s = []) = (\<forall>c\<in>set s. p c)"
proof -
  have "(dropWhile p (rev (dropWhile p s)) = []) = (dropWhile p s = [])"
  proof (cases "dropWhile p s")
    case Nil
    then show ?thesis by (simp del: dropWhile_eq_Nil_conv)
  next
    case (Cons a as)
    then have "\<not> p a" using hd_dropWhile[of p s] by (metis list.distinct(1) list.sel(1))
    with Cons show ?thesis by (auto simp: dropWhile_eq_Nil_conv)
  qed
  then show ?thesis by (simp add: strip_with_def dropWhile_eq_Nil_conv)
qed

lemma strip_empty: "(strip s = []) = (\<forall>c\<in>set s. is_space c)"
  by (simp add: strip_def strip_with_empty)

text \<open>
  Claim C9. On a summary that is empty or all white space \<open>generate_quiz_and_flashcards\<close>
  returns two empty lists and calls nothing. Otherwise it calls the model exactly once
  (the count grows by one, and the result depends on no other answer of the model). When
  the answer holds a brace- or bracket-delimited span that parses to an object, it
  returns the values of the keys \<open>flashcards\<close> and \<open>quiz\<close> of that object, each replaced
  by an empty list when absent. It returns two empty lists when the answer holds no span
  and whenever its body raises: when the call raises, when the answer has no text, when
  the span does not parse, and when it parses to a value that is not an object. The first
  definition of the function in the source behaves so on the whole answer instead of the
  span.
\<close>

theorem companion_generator:
  "((\<forall>c\<in>set summary_text. is_space c) \<longrightarrow>
      generate_quiz_and_flashcards E summary_text n = ((JList [], JList []), n)
      \<and> first_generate_quiz_and_flashcards E summary_text n = ((JList [], JList []), n))
   \<and> (\<not> (\<forall>c\<in>set summary_text. is_space c) \<longrightarrow>
        snd (generate_quiz_and_flashcards E summary_text n) = Suc n
        \<and> snd (first_generate_quiz_and_flashcards E summary_text n) = Suc n
        \<and> (\<forall>E'. generate_content E' n = generate_content E n \<and> json_loads E' = json_loads E \<longrightarrow>
              generate_quiz_and_flashcards E' summary_text n = generate_quiz_and_flashcards E summary_text n)
        \<and> (\<forall>t r m kvs.
              generate_content E n (CompanionPrompt summary_text) = Response (Some t) r
              \<and> first_greedy_span t m \<and> json_loads E m = Some (JObj kvs) \<longrightarrow>
              fst (generate_quiz_and_flashcards E summary_text n) =
                (case map_of kvs ''flashcards'' of Some v \<Rightarrow> v | None \<Rightarrow> JList [],
                 case map_of kvs ''quiz'' of Some v \<Rightarrow> v | None \<Rightarrow> JList []))
        \<and> (\<forall>t r.
              generate_content E n (CompanionPrompt summary_text) = Response (Some t) r
              \<and> (\<forall>i < length t. \<not> opens_span (drop i t)) \<longrightarrow>
              fst (generate_quiz_and_flashcards E summary_text n) = (JList [], JList []))
        \<and> (\<forall>t r m.
              generate_content E n (CompanionPrompt summary_text) = Response (Some t) r
              \<and> first_greedy_span t m
              \<and> (json_loads E m = None \<or> (\<exists>v. json_loads E m = Some v \<and> \<not> is_dict v)) \<longrightarrow>
              fst (generate_quiz_and_flashcards E summary_text n) = (JList [], JList []))
        \<and> ((\<exists>e. generate_content E n (CompanionPrompt summary_text) = Raises e)
            \<or> (\<exists>r. generate_content E n (CompanionPrompt summary_text) = Response None r) \<longrightarrow>
              fst (generate_quiz_and_flashcards E summary_text n) = (JList [], JList []))
        \<and> (\<forall>t r kvs.
              generate_content E n (FirstCompanionPrompt summary_text) = Response (Some t) r
              \<and> json_loads E t = Some (JObj kvs) \<longrightarrow>
              fst (first_generate_quiz_and_flashcards E summary_text n) =
                (case map_of kvs ''flashcards'' of Some v \<Rightarrow> v | None \<Rightarrow> JList [],
                 case map_of kvs ''quiz'' of Some v \<Rightarrow> v | None \<Rightarrow> JList []))
        \<and> ((\<exists>e. generate_content E n (FirstCompanionPrompt summary_text) = Raises e)
            \<or> (\<exists>r. generate_content E n (FirstCompanionPrompt summary_text) = Response None r)
            \<or> (\<exists>t r. generate_content E n (FirstCompanionPrompt summary_text) = Response (Some t) r
                  \<and> (json_loads E t = None \<or> (\<exists>v. json_loads E t = Some v \<and> \<not> is_dict v))) \<longrightarrow>
              fst (first_generate_quiz_and_flashcards E summary_text n) = (JList [], JList [])))"
proof (intro conjI impI allI)
  assume b: "\<forall>c\<in>set summary_text. is_space c"
  then show "generate_quiz_and_flashcards E summary_text n = ((JList [], JList []), n)"
    by (simp add: generate_quiz_and_flashcards_def strip_empty)
  from b show "first_generate_quiz_and_flashcards E summary_text n = ((JList [], JList []), n)"
    by (simp add: first_generate_quiz_and_flashcards_def strip_empty)
next
  assume nb: "\<not> (\<forall>c\<in>set summary_text. is_space c)"
  then have ne: "strip summary_text \<noteq> []" by (simp add: strip_empty)
  have nd: "pick_keys v = Inl AttributeError" if "\<not> is_dict v" for v
    using that by (cases v) (simp_all add: pick_keys_def and_then_def)
  show "snd (generate_quiz_and_flashcards E summary_text n) = Suc n"
    using ne by (simp add: generate_quiz_and_flashcards_def split: sum.splits)
  show "snd (first_generate_quiz_and_flashcards E summary_text n) = Suc n"
    using ne by (simp add: first_generate_quiz_and_flashcards_def split: sum.splits)
  show "generate_quiz_and_flashcards E' summary_text n = generate_quiz_and_flashcards E summary_text n"
    if "generate_content E' n = generate_content E n \<and> json_loads E' = json_loads E" for E'
  proof -
    from that have a: "generate_content E' n = generate_content E n"
      and b: "json_loads E' = json_loads E" by simp_all
    show ?thesis
      unfolding generate_quiz_and_flashcards_def companion_body_def a b by (rule refl)
  qed
  show "fst (generate_quiz_and_flashcards E summary_text n) =
                (case map_of kvs ''flashcards'' of Some v \<Rightarrow> v | None \<Rightarrow> JList [],
                 case map_of kvs ''quiz'' of Some v \<Rightarrow> v | None \<Rightarrow> JList [])"
    if "generate_content E n (CompanionPrompt summary_text) = Response (Some t) r
              \<and> first_greedy_span t m \<and> json_loads E m = Some (JObj kvs)" for t r m kvs
    using that ne first_greedy_span_search[of t m]
    by (simp add: generate_quiz_and_flashcards_def companion_body_def pick_keys_def and_then_def)
  show "fst (generate_quiz_and_flashcards E summary_text n) = (JList [], JList [])"
    if "generate_content E n (CompanionPrompt summary_text) = Response (Some t) r
              \<and> (\<forall>i < length t. \<not> opens_span (drop i t))" for t r
    using that ne regex_search_no_span[of t]
    by (simp add: generate_quiz_and_flashcards_def companion_body_def)
  show "fst (generate_quiz_and_flashcards E summary_text n) = (JList [], JList [])"
    if "generate_content E n (CompanionPrompt summary_text) = Response (Some t) r
              \<and> first_greedy_span t m
              \<and> (json_loads E m = None \<or> (\<exists>v. json_loads E m = Some v \<and> \<not> is_dict v))" for t r m
    using that ne first_greedy_span_search[of t m] nd
    by (auto simp: generate_quiz_and_flashcards_def companion_body_def)
  show "fst (generate_quiz_and_flashcards E summary_text n) = (JList [], JList [])"
    if "(\<exists>e. generate_content E n (CompanionPrompt summary_text) = Raises e)
            \<or> (\<exists>r. generate_content E n (CompanionPrompt summary_text) = Response None r)"
    using that ne by (auto simp: generate_quiz_and_flashcards_def companion_body_def)
  show "fst (first_generate_quiz_and_flashcards E summary_text n) =
                (case map_of kvs ''flashcards'' of Some v \<Rightarrow> v | None \<Rightarrow> JList [],
                 case map_of kvs ''quiz'' of Some v \<Rightarrow> v | None \<Rightarrow> JList [])"
    if "generate_content E n (FirstCompanionPrompt summary_text) = Response (Some t) r
              \<and> json_loads E t = Some (JObj kvs)" for t r kvs
    using that ne
    by (simp add: first_generate_quiz_and_flashcards_def first_companion_body_def pick_keys_def and_then_def)
  show "fst (first_generate_quiz_and_flashcards E summary_text n) = (JList [], JList [])"
    if "(\<exists>e. generate_content E n (FirstCompanionPrompt summary_text) = Raises e)
            \<or> (\<exists>r. generate_content E n (FirstCompanionPrompt summary_text) = Response None r)
            \<or> (\<exists>t r. generate_content E n (FirstCompanionPrompt summary_text) = Response (Some t) r
                  \<and> (json_loads E t = None \<or> (\<exists>v. json_loads E t = Some v \<and> \<not> is_dict v)))"
    using that ne nd
    by (auto simp: first_generate_quiz_and_flashcards_def first_companion_body_def)
qed

text \<open>
  The theorem on a blank summary, on a summary the model answers with an object that has
  the key \<open>flashcards\<close> wrapped in prose, and on a summary for which the call raises.
\<close>

theorem companion_generator_witness:
  "generate_quiz_and_flashcards companion_env ''   '' 0 = ((JList [], JList []), 0)
   \<and> generate_quiz_and_flashcards companion_env ''notes'' 0 = ((JList [JInt 1], JList []), 1)
   \<and> generate_quiz_and_flashcards failing_env ''notes'' 0 = ((JList [], JList []), 1)"
proof -
  have b: "\<forall>c\<in>set ''   ''. is_space c" by (simp add: is_space_def)
  have nb: "\<not> (\<forall>c\<in>set ''notes''. is_space c)" by (simp add: is_space_def)
  have s: "regex_search ''Here you go: {\"flashcards\": [1]} enjoy'' = Some ''{\"flashcards\": [1]}''"
    by simp
  have g: "generate_content companion_env 0 (CompanionPrompt ''notes'')
             = Response (Some ''Here you go: {\"flashcards\": [1]} enjoy'') ''response''
           \<and> first_greedy_span ''Here you go: {\"flashcards\": [1]} enjoy'' ''{\"flashcards\": [1]}''
           \<and> json_loads companion_env ''{\"flashcards\": [1]}''
               = Some (JObj [(''flashcards'', JList [JInt 1])])"
    using regex_search_Some[OF s] by (simp add: companion_env_def demo_loads_def)
  have f: "(\<exists>e. generate_content failing_env 0 (CompanionPrompt ''notes'') = Raises e)
           \<or> (\<exists>r. generate_content failing_env 0 (CompanionPrompt ''notes'') = Response None r)"
    by (simp add: failing_env_def)
  note t1 = companion_generator[where E = companion_env and summary_text = "''   ''" and n = 0]
  note t2 = companion_generator[where E = companion_env and summary_text = "''notes''" and n = 0]
  note t3 = companion_generator[where E = failing_env and summary_text = "''notes''" and n = 0]
  from mp[OF t1[THEN conjunct1] b]
  have 1: "generate_quiz_and_flashcards companion_env ''   '' 0 = ((JList [], JList []), 0)"
    by blast
  from mp[OF t2[THEN conjunct2] nb]
  have 2: "snd (generate_quiz_and_flashcards companion_env ''notes'' 0) = Suc 0"
    and 3: "\<forall>t r m kvs.
              generate_content companion_env 0 (CompanionPrompt ''notes'') = Response (Some t) r
              \<and> first_greedy_span t m \<and> json_loads companion_env m = Some (JObj kvs) \<longrightarrow>
              fst (generate_quiz_and_flashcards companion_env ''notes'' 0) =
                (case map_of kvs ''flashcards'' of Some v \<Rightarrow> v | None \<Rightarrow> JList [],
                 case map_of kvs ''quiz'' of Some v \<Rightarrow> v | None \<Rightarrow> JList [])"
    by blast+
  from 3 g have "fst (generate_quiz_and_flashcards companion_env ''notes'' 0) =
        (case map_of [(''flashcards'', JList [JInt 1])] ''flashcards'' of Some v \<Rightarrow> v | None \<Rightarrow> JList [],
         case map_of [(''flashcards'', JList [JInt 1])] ''quiz'' of Some v \<Rightarrow> v | None \<Rightarrow> JList [])"
    by blast
  then have 4: "fst (generate_quiz_and_flashcards companion_env ''notes'' 0) = (JList [JInt 1], JList [])"
    by simp
  from mp[OF t3[THEN conjunct2] nb]
  have 5: "snd (generate_quiz_and_flashcards failing_env ''notes'' 0) = Suc 0"
    and 6: "(\<exists>e. generate_content failing_env 0 (CompanionPrompt ''notes'') = Raises e)
            \<or> (\<exists>r. generate_content failing_env 0 (CompanionPrompt ''notes'') = Response None r) \<longrightarrow>
              fst (generate_quiz_and_flashcards failing_env ''notes'' 0) = (JList [], JList [])"
    by blast+
  from 6 f have 7: "fst (generate_quiz_and_flashcards failing_env ''notes'' 0) = (JList [], JList [])"
    by blast
  from 1 2 4 5 7 show ?thesis by (simp add: prod_eq_iff)
qed

lemma call_gemini_log:
  "call_gemini E p r g = (out, g') \<Longrightarrow> prompts g' = prompts g @ [p] \<and> ids g' = ids g"
  by (auto simp: call_gemini_def split: prod.splits)

lemma set_explanation_fields:
  "ai_explanation (set_explanation s n) = Some (JStr s)"
  "key_points (set_explanation s n) = key_points n"
  "label (set_explanation s n) = label n"
  "summary (set_explanation s n) = summary n"
  by (simp_all add: set_explanation_def)

lemma assign_explanations_fields:
  "assign_explanations m ns = Inr ns' \<Longrightarrow>
     list_all2 (\<lambda>n n'. ai_explanation n' \<noteq> None \<and> key_points n' = key_points n
                  \<and> label n' = label n \<and> summary n' = summary n) ns ns'"
proof (induction ns arbitrary: ns')
  case Nil
  then show ?case by simp
next
  case (Cons n ns)
  then show ?case by (auto split: sum.splits)
qed

lemma explanation_stage_fields:
  assumes "explanation_stage E ns m g = (ns', m', g')"
  shows "list_all2 (\<lambda>n n'. ai_explanation n' \<noteq> None \<and> key_points n' = key_points n
                  \<and> label n' = label n \<and> summary n' = summary n) ns ns'"
proof (cases "explanation_body E ns g")
  case (Pair r g1)
  show ?thesis
  proof (cases r)
    case (Inl e)
    with Pair assms have "ns' = map (set_explanation ''Explanation unavailable.'') ns"
      by (simp add: explanation_stage_def)
    then show ?thesis by (simp add: list_all2_map2 set_explanation_fields list.rel_refl)
  next
    case (Inr ns2)
    with Pair assms have e: "ns' = ns2" by (simp add: explanation_stage_def)
    show ?thesis
    proof (cases "collect_titles ns")
      case (Inl e')
      with Pair Inr show ?thesis by (simp add: explanation_body_def)
    next
      case r2: (Inr titles)
      show ?thesis
      proof (cases "titles = []")
        case True
        with Pair Inr r2 e have "ns' = map (set_explanation ''No explanation available.'') ns"
          by (simp add: explanation_body_def)
        then show ?thesis by (simp add: list_all2_map2 set_explanation_fields list.rel_refl)
      next
        case False
        with Pair Inr r2 e obtain mp where "assign_explanations mp ns = Inr ns'"
          by (auto simp: explanation_body_def and_then_def split: prod.splits sum.splits)
        then show ?thesis by (rule assign_explanations_fields)
      qed
    qed
  qed
qed


lemma explanation_stage_meta:
  assumes "explanation_stage E ns m g = (ns', m', g')"
  shows "meta_summary m' = meta_summary m \<and> quiz m' = quiz m \<and> n_nodes m' = n_nodes m
     \<and> warning m' = warning m \<and> error m' = error m \<and> summary_error m' = summary_error m"
  using assms by (auto simp: explanation_stage_def split: prod.splits sum.splits)

lemma summary_stage_meta:
  assumes "summary_stage E enable structure m g = (m', g')"
  shows "n_nodes m' = n_nodes m \<and> warning m' = warning m \<and> error m' = error m
     \<and> tooltip_error m' = tooltip_error m"
  using assms by (auto simp: summary_stage_def split: prod.splits sum.splits option.splits if_splits)

lemma keywords_stage_meta:
  "meta_keywords (keywords_stage ns m) \<noteq> None
   \<and> meta_summary (keywords_stage ns m) = meta_summary m \<and> quiz (keywords_stage ns m) = quiz m
   \<and> n_nodes (keywords_stage ns m) = n_nodes m \<and> warning (keywords_stage ns m) = warning m
   \<and> error (keywords_stage ns m) = error m \<and> summary_error (keywords_stage ns m) = summary_error m
   \<and> tooltip_error (keywords_stage ns m) = tooltip_error m"
  by (simp add: keywords_stage_def)

text \<open>What the three stages leave in the result, whatever they do.\<close>

lemma enrich_result:
  assumes "enrich E enable structure ns es g = (r, g')"
  shows "edges r = es
     \<and> list_all2 (\<lambda>n n'. ai_explanation n' \<noteq> None \<and> key_points n' = key_points n
                  \<and> label n' = label n \<and> summary n' = summary n) ns (nodes r)
     \<and> n_nodes (meta r) = Some (length ns) \<and> warning (meta r) = None \<and> error (meta r) = None
     \<and> meta_keywords (meta r) \<noteq> None"
proof -
  obtain m1 g1 where s: "summary_stage E enable structure (empty_meta\<lparr>n_nodes := Some (length ns)\<rparr>) g = (m1, g1)"
    by (cases "summary_stage E enable structure (empty_meta\<lparr>n_nodes := Some (length ns)\<rparr>) g")
  obtain ns2 m2 g2 where x: "explanation_stage E ns m1 g1 = (ns2, m2, g2)"
    by (cases "explanation_stage E ns m1 g1")
  from assms s x have r: "r = \<lparr>nodes = ns2, edges = es, meta = keywords_stage ns2 m2\<rparr>"
    by (simp add: enrich_def)
  from summary_stage_meta[OF s] have "n_nodes m1 = Some (length ns) \<and> warning m1 = None \<and> error m1 = None"
    by (simp add: empty_meta_def)
  with explanation_stage_meta[OF x] have "n_nodes m2 = Some (length ns) \<and> warning m2 = None \<and> error m2 = None"
    by simp
  with r explanation_stage_fields[OF x] keywords_stage_meta[of ns2 m2] show ?thesis by simp
qed

text \<open>
  Claim C1 says that \<open>process_text_to_mindmap\<close> never raises, also when a repaired value
  is not a list. The code raises: when the model answers every call with the text
  \<open>{"a":1}\<close>, the repaired value is a non-empty dict the first time and after the retry;
  the test before the retry asks for a list, the test after it only for a non-empty
  value, so the builder runs on the dict and raises \<open>AttributeError\<close> on its first key,
  after it has drawn the UUID of its first node.
\<close>

theorem process_raises_on_object:
  "process_text_to_mindmap object_env ''abc'' 18000 True start =
     (Inl AttributeError,
      \<lparr>calls = 3, prompts = [RootNamePrompt ''abc'', StructurePrompt ''abc'', RetryPrompt ''abc''],
        ids = 1\<rparr>)"
  by code_simp

text \<open>A response of white space only makes \<open>splitlines()[0]\<close> raise \<open>IndexError\<close>.\<close>

lemma process_raises_on_blank_response:
  "process_text_to_mindmap blank_env ''abc'' 18000 True start =
     (Inl IndexError, \<lparr>calls = 1, prompts = [RootNamePrompt ''abc''], ids = 0\<rparr>)"
  by code_simp

lemma build_graph_nodes_bounded:
  assumes "build_graph_from_hierarchy U mx hierarchy k = Inr (k', ns, es)"
  shows "\<forall>n\<in>set ns. node_bounded n"
proof -
  from assms obtain items where "build_items U mx items None 0 k [] [] = Inr (k', ns, es)"
    by (auto simp: build_graph_from_hierarchy_def split: sum.splits)
  from build_items_bounded[OF this] show ?thesis by simp
qed

lemma process_blank:
  "strip input = [] \<Longrightarrow>
   process_text_to_mindmap E input T enable g =
     (Inr \<lparr>nodes = [], edges = [],
           meta = empty_meta\<lparr>meta_summary := Some [], error := Some ''no_text''\<rparr>\<rparr>, g)"
  by (simp add: process_text_to_mindmap_def)

lemma process_path:
  assumes "strip input \<noteq> []"
    and "working_text E T (strip input) g = (Inr pt, g1)"
    and "root_title_of E pt g1 = (Inr title, g2)"
    and "acquire_structure E pt g2 = (structure, g3)"
  shows "process_text_to_mindmap E input T enable g =
     (if truthy structure then
        (case build_graph_from_hierarchy (uuid4_hex E) (max_level E) structure (ids g3) of
           Inl (e, k) \<Rightarrow> (Inl e, g3\<lparr>ids := k\<rparr>)
         | Inr (k, ns, es) \<Rightarrow>
             (case enrich E enable structure ns es (g3\<lparr>ids := k\<rparr>) of
                (result, g4) \<Rightarrow> (Inr result, g4)))
      else (Inr (parse_failed_result E (strip input) title (ids g3)), g3\<lparr>ids := Suc (ids g3)\<rparr>))"
  using assms by (simp add: process_text_to_mindmap_def Let_def)

text \<open>Every way \<open>process_text_to_mindmap\<close> returns a result.\<close>

lemma process_returns:
  assumes "process_text_to_mindmap E input T enable g = (Inr r, gf)"
  obtains (blank) "strip input = []"
      "r = \<lparr>nodes = [], edges = [],
             meta = empty_meta\<lparr>meta_summary := Some [], error := Some ''no_text''\<rparr>\<rparr>"
    | (fallback) pt g1 title g2 struct g3 where "strip input \<noteq> []"
      "working_text E T (strip input) g = (Inr pt, g1)"
      "root_title_of E pt g1 = (Inr title, g2)"
      "acquire_structure E pt g2 = (struct, g3)" "\<not> truthy struct"
      "r = parse_failed_result E (strip input) title (ids g3)"
    | (normal) pt g1 title g2 struct g3 k ns es where "strip input \<noteq> []"
      "working_text E T (strip input) g = (Inr pt, g1)"
      "root_title_of E pt g1 = (Inr title, g2)"
      "acquire_structure E pt g2 = (struct, g3)" "truthy struct"
      "build_graph_from_hierarchy (uuid4_hex E) (max_level E) struct (ids g3) = Inr (k, ns, es)"
      "enrich E enable struct ns es (g3\<lparr>ids := k\<rparr>) = (r, gf)"
proof (cases "strip input = []")
  case True
  with assms process_blank[OF True, of E T enable g] show ?thesis by (auto intro: blank)
next
  case False
  obtain w g1 where w: "working_text E T (strip input) g = (w, g1)"
    by (cases "working_text E T (strip input) g")
  show ?thesis
  proof (cases w)
    case (Inl e)
    with assms False w show ?thesis by (simp add: process_text_to_mindmap_def Let_def)
  next
    case (Inr pt)
    obtain t g2 where t: "root_title_of E pt g1 = (t, g2)" by (cases "root_title_of E pt g1")
    show ?thesis
    proof (cases t)
      case (Inl e)
      with assms False w Inr t show ?thesis by (simp add: process_text_to_mindmap_def Let_def)
    next
      case r2: (Inr title)
      obtain struct g3 where a: "acquire_structure E pt g2 = (struct, g3)"
        by (cases "acquire_structure E pt g2")
      note p = process_path[OF False w[unfolded Inr] t[unfolded r2] a, of enable]
      show ?thesis
      proof (cases "truthy struct")
        case nt: False
        with p assms have "r = parse_failed_result E (strip input) title (ids g3)" by simp
        with False w Inr t r2 a nt show ?thesis by (auto intro: fallback)
      next
        case tr: True
        show ?thesis
        proof (cases "build_graph_from_hierarchy (uuid4_hex E) (max_level E) struct (ids g3)")
          case (Inl e)
          with p assms tr show ?thesis by (simp split: prod.splits)
        next
          case r3: (Inr res)
          obtain k ns es where res: "res = (k, ns, es)" by (cases res)
          with p assms tr r3 have "enrich E enable struct ns es (g3\<lparr>ids := k\<rparr>) = (r, gf)"
            by (auto split: prod.splits)
          with False w Inr t r2 a tr r3 res show ?thesis by (auto intro: normal)
        qed
      qed
    qed
  qed
qed

text \<open>
  The answer of \<open>_call_gemini\<close> is empty or starts with a character that is not white
  space, so the root title, the stripped first line of such an answer, is never empty:
  on an empty answer \<open>splitlines()[0]\<close> raises.
\<close>

lemma linebreak_is_space: "is_linebreak c \<Longrightarrow> is_space c"
  by (auto simp: is_linebreak_def is_space_def)

lemma strip_with_hd: "strip_with p s \<noteq> [] \<Longrightarrow> \<not> p (hd (strip_with p s))"
proof -
  assume a: "strip_with p s \<noteq> []"
  then have "dropWhile p s \<noteq> []" by (auto simp: strip_with_def simp del: dropWhile_eq_Nil_conv)
  then obtain c d where d: "dropWhile p s = c # d" by (cases "dropWhile p s") auto
  then have c: "\<not> p c" using hd_dropWhile[of p s] by (metis list.distinct(1) list.sel(1))
  have "\<exists>ys. dropWhile p (rev d @ [c]) = ys @ [c]"
    using c by (simp add: dropWhile_append)
  then obtain ys where "dropWhile p (rev (dropWhile p s)) = ys @ [c]" using d by auto
  then have "strip_with p s = c # rev ys" by (simp add: strip_with_def)
  with c show ?thesis by simp
qed

lemma attempts_head: "attempts E p left n = (out, n') \<Longrightarrow> out = [] \<or> \<not> is_space (hd out)"
proof (induction left arbitrary: n)
  case 0
  then show ?case
    by (auto simp: strip_def is_space_def split: outcome.splits dest: strip_with_hd)
next
  case (Suc left)
  then show ?case
    by (auto simp: strip_def split: outcome.splits dest: strip_with_hd)
qed

lemma call_gemini_head: "call_gemini E p r g = (out, g') \<Longrightarrow> out = [] \<or> \<not> is_space (hd out)"
  by (auto simp: call_gemini_def split: prod.splits dest: attempts_head)

lemma first_line_nonempty:
  assumes "first_line out = Inr t" and "out = [] \<or> \<not> is_space (hd out)"
  shows "t \<noteq> []"
proof (cases out)
  case Nil
  with assms(1) show ?thesis by (simp add: first_line_def)
next
  case (Cons c cs)
  with assms(2) have c: "\<not> is_space c" by simp
  then have "\<not> is_linebreak c" using linebreak_is_space by blast
  then obtain l ls where "splitlines (c # cs) = (c # l) # ls"
    by (cases "splitlines cs") auto
  with assms(1) Cons have "t = strip (c # l)" by (simp add: first_line_def)
  with c show ?thesis by (simp add: strip_empty)
qed

lemma root_title_nonempty: "root_title_of E pt g = (Inr title, g') \<Longrightarrow> title \<noteq> []"
proof -
  assume a: "root_title_of E pt g = (Inr title, g')"
  obtain out g1 where c: "call_gemini E (RootNamePrompt pt) 1 g = (out, g1)"
    by (cases "call_gemini E (RootNamePrompt pt) 1 g")
  with a have "first_line out = Inr title" by (simp add: root_title_of_def)
  then show ?thesis using call_gemini_head[OF c] by (rule first_line_nonempty)
qed

text \<open>
  Claim C2, amended. If the response to the structuring prompt does not repair-parse to a
  non-empty list, exactly one call with the retry prompt follows. If the retried result
  is falsy (\<open>None\<close> or empty), the function returns exactly one node labelled with the
  root title, which is not empty, no edge, \<open>meta.warning\<close> equal to \<open>parse_failed\<close> and
  \<open>meta.summary\<close> equal to the first 800 characters of the input stripped of leading and
  trailing white space; no further call is made.
\<close>

theorem parse_failure_fallback:
  assumes "strip input \<noteq> []"
    and "working_text E T (strip input) g = (Inr pt, g1)"
    and "root_title_of E pt g1 = (Inr title, g2)"
    and "call_gemini E (StructurePrompt pt) 1 g2 = (raw, g3)"
    and "\<not> (truthy (safe_json_loads (json_loads E) raw) \<and> is_list (safe_json_loads (json_loads E) raw))"
    and "call_gemini E (RetryPrompt pt) 1 g3 = (raw2, g4)"
  shows "acquire_structure E pt g2 = (safe_json_loads (json_loads E) raw2, g4)
     \<and> prompts g4 = prompts g2 @ [StructurePrompt pt, RetryPrompt pt]
     \<and> (\<not> truthy (safe_json_loads (json_loads E) raw2) \<longrightarrow>
          (\<exists>r gf. process_text_to_mindmap E input T enable g = (Inr r, gf)
             \<and> prompts gf = prompts g4
             \<and> (\<exists>n. nodes r = [n] \<and> label n = JStr title) \<and> title \<noteq> []
             \<and> edges r = [] \<and> warning (meta r) = Some ''parse_failed''
             \<and> meta_summary (meta r) = Some (take 800 (strip input))))"
proof -
  have a: "acquire_structure E pt g2 = (safe_json_loads (json_loads E) raw2, g4)"
    using assms(4,5,6) by (auto simp: acquire_structure_def Let_def)
  have l: "prompts g4 = prompts g2 @ [StructurePrompt pt, RetryPrompt pt]"
    using call_gemini_log[OF assms(4)] call_gemini_log[OF assms(6)] by simp
  have "\<exists>r gf. process_text_to_mindmap E input T enable g = (Inr r, gf)
             \<and> prompts gf = prompts g4
             \<and> (\<exists>n. nodes r = [n] \<and> label n = JStr title) \<and> title \<noteq> []
             \<and> edges r = [] \<and> warning (meta r) = Some ''parse_failed''
             \<and> meta_summary (meta r) = Some (take 800 (strip input))"
    if f: "\<not> truthy (safe_json_loads (json_loads E) raw2)"
  proof -
    have "process_text_to_mindmap E input T enable g =
        (Inr (parse_failed_result E (strip input) title (ids g4)), g4\<lparr>ids := Suc (ids g4)\<rparr>)"
      using process_path[OF assms(1,2,3) a, of enable] f by simp
    then show ?thesis
      using root_title_nonempty[OF assms(3)] by (simp add: parse_failed_result_def empty_meta_def)
  qed
  with a l show ?thesis by blast
qed

text \<open>The theorem when every call to the model raises.\<close>

theorem parse_failure_fallback_witness:
  "\<exists>r gf. process_text_to_mindmap failing_env ''abc'' 18000 True start = (Inr r, gf)
      \<and> prompts gf = [RootNamePrompt ''abc'', StructurePrompt ''abc'', RetryPrompt ''abc'']
      \<and> (\<exists>n. nodes r = [n] \<and> label n = JStr ''__GEMINI_ERROR__: unreachable'')
      \<and> edges r = [] \<and> warning (meta r) = Some ''parse_failed''
      \<and> meta_summary (meta r) = Some ''abc''"
proof -
  define g2 where "g2 = \<lparr>calls = 2, prompts = [RootNamePrompt ''abc''], ids = 0\<rparr>"
  define g3 where "g3 = \<lparr>calls = 4, prompts = [RootNamePrompt ''abc'', StructurePrompt ''abc''], ids = 0\<rparr>"
  define g4 where "g4 = \<lparr>calls = 6, prompts = [RootNamePrompt ''abc'', StructurePrompt ''abc'',
      RetryPrompt ''abc''], ids = 0\<rparr>"
  have s: "strip ''abc'' = ''abc''" by code_simp
  have 1: "strip ''abc'' \<noteq> []" by code_simp
  have 2: "working_text failing_env 18000 (strip ''abc'') start = (Inr ''abc'', start)"
    by code_simp
  have 3: "root_title_of failing_env ''abc'' start = (Inr ''__GEMINI_ERROR__: unreachable'', g2)"
    unfolding g2_def by code_simp
  have 4: "call_gemini failing_env (StructurePrompt ''abc'') 1 g2 = (''__GEMINI_ERROR__: unreachable'', g3)"
    unfolding g2_def g3_def by code_simp
  have p: "safe_json_loads (json_loads failing_env) ''__GEMINI_ERROR__: unreachable'' = JNull"
    by code_simp
  have 5: "\<not> (truthy (safe_json_loads (json_loads failing_env) ''__GEMINI_ERROR__: unreachable'')
      \<and> is_list (safe_json_loads (json_loads failing_env) ''__GEMINI_ERROR__: unreachable''))"
    unfolding p by simp
  have 6: "call_gemini failing_env (RetryPrompt ''abc'') 1 g3 = (''__GEMINI_ERROR__: unreachable'', g4)"
    unfolding g3_def g4_def by code_simp
  have 7: "\<not> truthy (safe_json_loads (json_loads failing_env) ''__GEMINI_ERROR__: unreachable'')"
    unfolding p by simp
  from parse_failure_fallback[OF 1 2 3 4 5 6, of True] 7
  have "\<exists>r gf. process_text_to_mindmap failing_env ''abc'' 18000 True start = (Inr r, gf)
             \<and> prompts gf = prompts g4
             \<and> (\<exists>n. nodes r = [n] \<and> label n = JStr ''__GEMINI_ERROR__: unreachable'')
             \<and> ''__GEMINI_ERROR__: unreachable'' \<noteq> []
             \<and> edges r = [] \<and> warning (meta r) = Some ''parse_failed''
             \<and> meta_summary (meta r) = Some (take 800 (strip ''abc''))"
    by blast
  then show ?thesis by (simp add: g4_def s)
qed

text \<open>
  Claim C2 as stated fails: on the input \<open>"  abc"\<close> the summary is \<open>"abc"\<close>, not the first
  800 characters of the input.
\<close>

theorem parse_failure_summary_counterexample:
  "process_text_to_mindmap failing_env ''  abc'' 18000 True start =
     (Inr \<lparr>nodes = [\<lparr>node_id = ''root_0a1b2c3d'', label = JStr ''__GEMINI_ERROR__: unreachable'',
                      level = 0, summary = JStr ''abc'', key_points = None, ai_explanation = None\<rparr>],
           edges = [],
           meta = \<lparr>n_nodes = None, meta_summary = Some ''abc'', quiz = None, meta_keywords = None,
                   error = None, warning = Some ''parse_failed'', summary_error = None,
                   tooltip_error = None\<rparr>\<rparr>,
      \<lparr>calls = 6, prompts = [RootNamePrompt ''abc'', StructurePrompt ''abc'', RetryPrompt ''abc''],
        ids = 1\<rparr>)
   \<and> take 800 ''  abc'' \<noteq> ''abc''"
  by code_simp

text \<open>
  Claim C10, amended. Only the parse-failure path sets \<open>meta.warning\<close> to \<open>parse_failed\<close>.
  The single node it returns has as summary the first 320 characters of the input
  stripped of leading and trailing white space (\<open>meta.summary\<close> has the first 800), and
  has neither \<open>key_points\<close> nor \<open>ai_explanation\<close>; every node of every other result has
  both.
\<close>

theorem fallback_node_fields:
  assumes "process_text_to_mindmap E input T enable g = (Inr r, gf)"
  shows "(warning (meta r) = Some ''parse_failed'' \<longrightarrow>
            (\<exists>n. nodes r = [n] \<and> summary n = JStr (take 320 (strip input))
                 \<and> key_points n = None \<and> ai_explanation n = None)
            \<and> meta_summary (meta r) = Some (take 800 (strip input)))
       \<and> (warning (meta r) \<noteq> Some ''parse_failed'' \<longrightarrow>
            (\<forall>n\<in>set (nodes r). key_points n \<noteq> None \<and> ai_explanation n \<noteq> None))"
  using assms
proof (cases rule: process_returns)
  case blank
  then show ?thesis by (simp add: empty_meta_def)
next
  case (fallback pt g1 title g2 struct g3)
  then show ?thesis by (simp add: parse_failed_result_def empty_meta_def)
next
  case (normal pt g1 title g2 struct g3 k ns es)
  from enrich_result[OF normal(7)] have w: "warning (meta r) = None"
    and l: "list_all2 (\<lambda>n n'. ai_explanation n' \<noteq> None \<and> key_points n' = key_points n
                  \<and> label n' = label n \<and> summary n' = summary n) ns (nodes r)"
    by simp_all
  have b: "\<forall>n\<in>set ns. key_points n \<noteq> None"
    using build_graph_nodes_bounded[OF normal(6)] by (auto simp: node_bounded_def)
  have "key_points n' \<noteq> None \<and> ai_explanation n' \<noteq> None" if "n' \<in> set (nodes r)" for n'
  proof -
    from that obtain i where i: "i < length (nodes r)" "nodes r ! i = n'"
      by (auto simp: in_set_conv_nth)
    with l have "i < length ns" by (simp add: list_all2_lengthD)
    with list_all2_nthD[OF l this] b i show ?thesis by (metis nth_mem)
  qed
  with w show ?thesis by simp
qed

lemma process_failing_env:
  "process_text_to_mindmap failing_env ''abc'' 18000 True start =
     (Inr fallback_demo,
      \<lparr>calls = 6, prompts = [RootNamePrompt ''abc'', StructurePrompt ''abc'', RetryPrompt ''abc''],
        ids = 1\<rparr>)"
  by code_simp

lemma process_demo_env:
  "process_text_to_mindmap demo_env ''abc'' 18000 True start =
     (Inr enriched_demo,
      \<lparr>calls = 4, prompts = [RootNamePrompt ''abc'', StructurePrompt ''abc'', MapSummaryPrompt [],
          BatchPrompt [''Cell biology'']], ids = 1\<rparr>)"
  by code_simp

text \<open>The theorem on a run that falls back and on a run that builds a graph.\<close>

theorem fallback_node_fields_witness:
  "(\<exists>n. nodes fallback_demo = [n] \<and> summary n = JStr ''abc''
        \<and> key_points n = None \<and> ai_explanation n = None)
   \<and> meta_summary (meta fallback_demo) = Some ''abc''
   \<and> list_all (\<lambda>n. key_points n \<noteq> None \<and> ai_explanation n \<noteq> None) (nodes enriched_demo)"
proof -
  have s: "strip ''abc'' = ''abc''" by code_simp
  have w1: "warning (meta fallback_demo) = Some ''parse_failed''" by (simp add: fallback_demo_def)
  have w2: "warning (meta enriched_demo) \<noteq> Some ''parse_failed''" by (simp add: enriched_demo_def)
  from mp[OF fallback_node_fields[OF process_failing_env, THEN conjunct1] w1]
  have 1: "(\<exists>n. nodes fallback_demo = [n] \<and> summary n = JStr ''abc''
        \<and> key_points n = None \<and> ai_explanation n = None)
   \<and> meta_summary (meta fallback_demo) = Some ''abc''"
    by (simp only: s take_all_iff) simp
  from mp[OF fallback_node_fields[OF process_demo_env, THEN conjunct2] w2]
  have "list_all (\<lambda>n. key_points n \<noteq> None \<and> ai_explanation n \<noteq> None) (nodes enriched_demo)"
    by (simp only: list_all_iff)
  with 1 show ?thesis by blast
qed

text \<open>
  Claim C10 as stated fails: on an input that starts with a newline the node's summary
  is \<open>"abc"\<close>, not the first 320 characters of the input.
\<close>

theorem fallback_node_summary_counterexample:
  "process_text_to_mindmap failing_env ''\<newline>abc'' 18000 True start =
     (Inr \<lparr>nodes = [\<lparr>node_id = ''root_0a1b2c3d'', label = JStr ''__GEMINI_ERROR__: unreachable'',
                      level = 0, summary = JStr ''abc'', key_points = None, ai_explanation = None\<rparr>],
           edges = [],
           meta = \<lparr>n_nodes = None, meta_summary = Some ''abc'', quiz = None, meta_keywords = None,
                   error = None, warning = Some ''parse_failed'', summary_error = None,
                   tooltip_error = None\<rparr>\<rparr>,
      \<lparr>calls = 6, prompts = [RootNamePrompt ''abc'', StructurePrompt ''abc'', RetryPrompt ''abc''],
        ids = 1\<rparr>)
   \<and> take 320 ''\<newline>abc'' \<noteq> ''abc''"
  by code_simp







lemma first_seen_snoc:
  "first_seen (ws @ [w]) = (if w \<in> set ws then first_seen ws else first_seen ws @ [w])"
  by (simp add: first_seen_def)

lemma first_seen_props: "distinct (first_seen ws)" "set (first_seen ws) = set ws"
  by (simp_all add: first_seen_def)

lemma count_word_distinct:
  "distinct (map fst xs) \<Longrightarrow>
   count_word w xs =
     (if w \<in> set (map fst xs) then map (\<lambda>xc. (fst xc, if fst xc = w then Suc (snd xc) else snd xc)) xs
      else xs @ [(w, 1)])"
proof (induction xs)
  case Nil
  then show ?case by simp
next
  case (Cons a xs)
  obtain x c where a: "a = (x, c)" by (cases a)
  show ?case
  proof (cases "x = w")
    case True
    with Cons.prems a have "w \<notin> set (map fst xs)" by auto
    then have "map (\<lambda>xc. (fst xc, if fst xc = w then Suc (snd xc) else snd xc)) xs = xs"
      by (induction xs) auto
    with True a show ?thesis by simp
  next
    case False
    with Cons a show ?thesis by auto
  qed
qed

lemma Counter_snoc: "Counter (ws @ [w]) = count_word w (Counter ws)"
  by (simp add: Counter_def)

lemma Counter_items: "Counter ws = map (\<lambda>w. (w, count_list ws w)) (first_seen ws)"
proof (induction ws rule: rev_induct)
  case Nil
  show ?case by (simp add: Counter_def first_seen_def)
next
  case (snoc w ws)
  have d: "distinct (map fst (Counter ws))"
    unfolding snoc.IH using first_seen_props(1)[of ws] by (simp add: comp_def)
  have k: "set (map fst (Counter ws)) = set ws"
    unfolding snoc.IH using first_seen_props(2)[of ws] by (simp add: comp_def)
  show ?case
  proof (cases "w \<in> set ws")
    case True
    then show ?thesis
      unfolding Counter_snoc count_word_distinct[OF d] k
      by (simp add: snoc.IH first_seen_snoc comp_def)
  next
    case False
    then show ?thesis
      unfolding Counter_snoc count_word_distinct[OF d] k
      by (auto simp: snoc.IH first_seen_snoc first_seen_props)
  qed
qed

lemma most_common_ranking:
  "\<exists>ranked. map fst (most_common n (Counter ws)) = take n ranked \<and> ranking_of ws ranked"
proof -
  define f where "f = (\<lambda>wc :: string \<times> nat. - int (snd wc))"
  define S where "S = sort_key f (Counter ws)"
  have el: "\<forall>wc\<in>set (Counter ws). snd wc = count_list ws (fst wc)"
    by (auto simp: Counter_items)
  then have elS: "\<forall>wc\<in>set S. snd wc = count_list ws (fst wc)" by (simp add: S_def)
  have e: "map (\<lambda>w. - int (count_list ws w)) (map fst S) = map f S"
    using elS by (simp add: f_def)
  have 1: "sorted (map (\<lambda>w. - int (count_list ws w)) (map fst S))"
    unfolding e by (simp add: S_def)
  have 2: "filter (\<lambda>w. count_list ws w = c) (map fst S)
         = filter (\<lambda>w. count_list ws w = c) (first_seen ws)" for c
  proof -
    have "filter (\<lambda>w. count_list ws w = c) (map fst S)
        = map fst (filter (\<lambda>wc. count_list ws (fst wc) = c) S)"
      by (simp add: filter_map comp_def)
    also have "filter (\<lambda>wc. count_list ws (fst wc) = c) S = filter (\<lambda>wc. f wc = - int c) S"
      using elS by (intro filter_cong) (auto simp: f_def)
    also have "\<dots> = filter (\<lambda>wc. f wc = - int c) (Counter ws)"
      unfolding S_def by (rule sort_key_stable)
    also have "\<dots> = filter (\<lambda>wc. count_list ws (fst wc) = c) (Counter ws)"
      using el by (intro filter_cong) (auto simp: f_def)
    also have "map fst \<dots> = filter (\<lambda>w. count_list ws w = c) (map fst (Counter ws))"
      by (simp add: filter_map comp_def)
    also have "map fst (Counter ws) = first_seen ws"
      by (simp add: Counter_items comp_def)
    finally show ?thesis .
  qed
  have "map fst (most_common n (Counter ws)) = take n (map fst S)"
    by (simp add: most_common_def S_def f_def take_map)
  with 1 2 show ?thesis unfolding ranking_of_def by blast
qed

lemma pool_parts_strings:
  "list_all (\<lambda>n. is_str (label n) \<and> is_str (summary n)) ns \<Longrightarrow>
   pool_parts ns = Inr (map (\<lambda>n. str_of (label n) @ '' '' @ str_of (summary n)) ns)"
proof (induction ns)
  case Nil
  show ?case by simp
next
  case (Cons n ns)
  then obtain a b where "label n = JStr a" "summary n = JStr b"
    by (cases "label n"; cases "summary n") auto
  with Cons show ?case by simp
qed

lemma pool_parts_raises:
  "\<not> list_all (\<lambda>n. is_str (label n) \<and> is_str (summary n)) ns \<Longrightarrow> pool_parts ns = Inl TypeError"
proof (induction ns)
  case Nil
  then show ?case by simp
next
  case (Cons n ns)
  show ?case
  proof (cases "is_str (label n) \<and> is_str (summary n)")
    case True
    then obtain a b where "label n = JStr a" "summary n = JStr b"
      by (cases "label n"; cases "summary n") auto
    with Cons True show ?thesis by simp
  next
    case False
    then show ?thesis by (cases "label n"; cases "summary n") auto
  qed
qed

text \<open>
  Claim C8, amended. The words are the whitespace-split tokens of the joined labels and
  summaries whose length as split exceeds 3, each lowercased and stripped of the
  characters \<open>.,:;()[]\<close> at both ends. \<open>meta.keywords\<close> is the first 12 of the distinct
  words by descending frequency, ties in the order of first occurrence. It is a function
  of the nodes alone, and it is the empty list when the stage raises, which it does
  exactly when a label or a summary is not a str.
\<close>

theorem keyword_extraction:
  "(list_all (\<lambda>n. is_str (label n) \<and> is_str (summary n)) ns \<longrightarrow>
      (\<exists>ranked. meta_keywords (keywords_stage ns m) = Some (take 12 ranked)
         \<and> ranking_of (words_of (text_pool_of ns)) ranked))
   \<and> (\<not> list_all (\<lambda>n. is_str (label n) \<and> is_str (summary n)) ns \<longrightarrow>
        meta_keywords (keywords_stage ns m) = Some [])
   \<and> meta_keywords (keywords_stage ns m) = meta_keywords (keywords_stage ns m')
   \<and> words_of text_pool =
       map (\<lambda>w. strip_chars ''.,:;()[]'' (lower w)) (filter (\<lambda>w. 3 < length w) (split text_pool))"
proof (intro conjI impI)
  assume a: "list_all (\<lambda>n. is_str (label n) \<and> is_str (summary n)) ns"
  from most_common_ranking[of 12 "words_of (text_pool_of ns)"] obtain ranked where
    "map fst (most_common 12 (Counter (words_of (text_pool_of ns)))) = take 12 ranked"
    "ranking_of (words_of (text_pool_of ns)) ranked" by blast
  then show "\<exists>ranked. meta_keywords (keywords_stage ns m) = Some (take 12 ranked)
         \<and> ranking_of (words_of (text_pool_of ns)) ranked"
    using pool_parts_strings[OF a]
    by (auto simp: keywords_stage_def keywords_body_def text_pool_of_def)
next
  assume "\<not> list_all (\<lambda>n. is_str (label n) \<and> is_str (summary n)) ns"
  from pool_parts_raises[OF this] show "meta_keywords (keywords_stage ns m) = Some []"
    by (simp add: keywords_stage_def keywords_body_def)
next
  show "meta_keywords (keywords_stage ns m) = meta_keywords (keywords_stage ns m')"
    by (simp add: keywords_stage_def)
next
  show "words_of text_pool =
       map (\<lambda>w. strip_chars ''.,:;()[]'' (lower w)) (filter (\<lambda>w. 3 < length w) (split text_pool))"
    by (simp add: words_of_def)
qed

text \<open>The theorem on a node with repeated words and on a node whose label is a list.\<close>

theorem keyword_extraction_witness:
  "(\<exists>ranked. meta_keywords (keywords_stage [cells_node] empty_meta) = Some (take 12 ranked)
       \<and> ranking_of (words_of (text_pool_of [cells_node])) ranked)
   \<and> meta_keywords (keywords_stage [list_node] empty_meta) = Some []
   \<and> meta_keywords (keywords_stage [cells_node] empty_meta) = Some [''walls'', ''cell'', ''plant'', ''rigid'']"
proof -
  have a: "list_all (\<lambda>n. is_str (label n) \<and> is_str (summary n)) [cells_node]"
    by (simp add: cells_node_def)
  have b: "\<not> list_all (\<lambda>n. is_str (label n) \<and> is_str (summary n)) [list_node]"
    by (simp add: list_node_def)
  have c: "meta_keywords (keywords_stage [cells_node] empty_meta) = Some [''walls'', ''cell'', ''plant'', ''rigid'']"
    by code_simp
  note t1 = keyword_extraction[where ns = "[cells_node]" and m = empty_meta]
  note t2 = keyword_extraction[where ns = "[list_node]" and m = empty_meta]
  from mp[OF t1[THEN conjunct1] a] mp[OF t2[THEN conjunct2, THEN conjunct1] b] c
  show ?thesis by blast
qed

text \<open>
  Claim C8 as stated fails: the token \<open>(a).\<close> is longer than 3 characters as split and
  gives the keyword \<open>a\<close>; stripped first and tested after, it would be dropped.
\<close>

theorem keyword_length_counterexample:
  "meta_keywords (keywords_stage [bracket_node] empty_meta) = Some [''a'']
   \<and> claimed_words (text_pool_of [bracket_node]) = []
   \<and> \<not> 3 < length ''a''"
  by code_simp

end
